theory Spec2Isabelle
  imports Complex_Main "HOL-Library.Char_ord" "HOL-Library.List_Lexorder"
    "HOL-Library.Product_Lexorder"
begin

section \<open>Data model of \<open>WordleSolver\<close> (Old/V3 (Practically Perfect)/solver.py)\<close>

text \<open>
  Words, guesses and feedback are Python strings, hence \<open>string\<close>. Feedback uses the
  characters \<open>G\<close> (CORRECT), \<open>Y\<close> (PRESENT) and \<open>X\<close> (ABSENT); the code compares
  against these three characters and ignores any other one.

  A \<open>collections.Counter\<close> that is only read point-wise is a function \<open>char \<Rightarrow> nat\<close>
  (a missing key reads as 0). A dictionary whose keys are iterated is a map.
  A Python \<open>set\<close> is a HOL set; wherever the code iterates over a set and the order could
  matter, the iteration order is a parameter \<open>iter\<close>, a function that lists a set.
  The only exception the core can raise is \<open>IndexError\<close> (a list or a string indexed
  out of range); a function that can raise returns \<open>py_error + 'a\<close>, and the half
  updated object of a call that raised is not modelled.

  The record has the fields of the class that the core reads or writes; \<open>guesses_made\<close>
  is only a counter of the interface and is left out.
\<close>

datatype py_error = IndexError

type_synonym counter = "char \<Rightarrow> nat"

record solver =
  all_words :: "string set"
  possible_answers :: "string set"
  feedback_history :: "(string \<times> string) list"
  known_letters :: "char option list"
  misplaced_letters :: "char set list"
  present_letters :: "char set"
  excluded_letters :: "char set"

text \<open>\<open>_known_letters\<close> holds \<open>''\<close> (here \<open>None\<close>) or a one-letter string (here \<open>Some c\<close>).\<close>

definition reset_solver_state :: "solver \<Rightarrow> solver" where
  "reset_solver_state s =
     s\<lparr>known_letters := replicate 5 None,
       misplaced_letters := replicate 5 {},
       present_letters := {},
       excluded_letters := {}\<rparr>"

subsection \<open>\<open>_update_internal_state_from_history\<close>\<close>

text \<open>First pass over \<open>enumerate(zip(guess, feedback))\<close>: the greens.\<close>

fun greens_pass ::
  "nat \<Rightarrow> (char \<times> char) list \<Rightarrow> solver \<times> counter \<Rightarrow> py_error + solver \<times> counter" where
  "greens_pass i [] sc = Inr sc"
| "greens_pass i ((letter, status) # rest) (s, confirmed) =
     (if status = CHR ''G'' then
        (if i < length (known_letters s) then
           greens_pass (Suc i) rest
             (s\<lparr>known_letters := (known_letters s)[i := Some letter],
                present_letters := insert letter (present_letters s)\<rparr>,
              confirmed(letter := confirmed letter + 1))
         else Inl IndexError)
      else greens_pass (Suc i) rest (s, confirmed))"

text \<open>Second pass: yellows and grays. \<open>cur\<close> is \<open>Counter(guess)\<close>.\<close>

fun yellows_grays_pass ::
  "nat \<Rightarrow> (char \<times> char) list \<Rightarrow> counter \<Rightarrow> solver \<times> counter \<Rightarrow> py_error + solver \<times> counter" where
  "yellows_grays_pass i [] cur sc = Inr sc"
| "yellows_grays_pass i ((letter, status) # rest) cur (s, confirmed) =
     (if status = CHR ''Y'' then
        (if i < length (misplaced_letters s) then
           yellows_grays_pass (Suc i) rest cur
             (s\<lparr>misplaced_letters :=
                  (misplaced_letters s)[i := insert letter (misplaced_letters s ! i)],
                present_letters := insert letter (present_letters s)\<rparr>,
              confirmed(letter := confirmed letter + 1))
         else Inl IndexError)
      else if status = CHR ''X'' then
        (if confirmed letter < cur letter then
           (if letter \<notin> present_letters s \<and> Some letter \<notin> set (known_letters s) then
              yellows_grays_pass (Suc i) rest cur
                (s\<lparr>excluded_letters := insert letter (excluded_letters s)\<rparr>, confirmed)
            else yellows_grays_pass (Suc i) rest cur (s, confirmed))
         else yellows_grays_pass (Suc i) rest cur (s, confirmed))
      else yellows_grays_pass (Suc i) rest cur (s, confirmed))"

fun update_loop :: "(string \<times> string) list \<Rightarrow> solver \<Rightarrow> py_error + solver" where
  "update_loop [] s = Inr s"
| "update_loop ((guess, feedback) # rest) s =
     (case greens_pass 0 (zip guess feedback) (s, \<lambda>_. 0) of
        Inl e \<Rightarrow> Inl e
      | Inr sc \<Rightarrow>
          (case yellows_grays_pass 0 (zip guess feedback) (count_list guess) sc of
             Inl e \<Rightarrow> Inl e
           | Inr (s', confirmed) \<Rightarrow> update_loop rest s'))"

definition update_internal_state_from_history :: "solver \<Rightarrow> py_error + solver" where
  "update_internal_state_from_history s =
     update_loop (feedback_history s) (reset_solver_state s)"

subsection \<open>\<open>filter_words\<close>\<close>

text \<open>
  \<open>for i, known_letter in enumerate(self._known_letters)\<close>: the comprehension evaluates
  \<open>word[i]\<close> for every word still in \<open>filtered\<close>, so a word shorter than \<open>i + 1\<close> raises.
\<close>

fun apply_known :: "nat \<Rightarrow> char option list \<Rightarrow> string set \<Rightarrow> py_error + string set" where
  "apply_known i [] filtered = Inr filtered"
| "apply_known i (None # ks) filtered = apply_known (Suc i) ks filtered"
| "apply_known i (Some known_letter # ks) filtered =
     (if \<exists>word\<in>filtered. length word \<le> i then Inl IndexError
      else apply_known (Suc i) ks {word \<in> filtered. word ! i = known_letter})"

text \<open>
  \<open>for letter in self._present_letters\<close>: one filter per letter; the filters commute and
  none can raise, so the loop is the comprehension over all letters at once.
\<close>

definition apply_present :: "char set \<Rightarrow> string set \<Rightarrow> string set" where
  "apply_present present filtered = {word \<in> filtered. \<forall>letter\<in>present. letter \<in> set word}"

fun apply_misplaced :: "nat \<Rightarrow> char set list \<Rightarrow> string set \<Rightarrow> py_error + string set" where
  "apply_misplaced i [] filtered = Inr filtered"
| "apply_misplaced i (misplaced_set # ms) filtered =
     (if misplaced_set \<noteq> {} \<and> (\<exists>word\<in>filtered. length word \<le> i) then Inl IndexError
      else apply_misplaced (Suc i) ms
             {word \<in> filtered. \<forall>letter\<in>misplaced_set. word ! i \<noteq> letter})"

text \<open>\<open>self._excluded_letters - self._present_letters - set(filter(None, self._known_letters))\<close>\<close>

definition active_exclusions :: "solver \<Rightarrow> char set" where
  "active_exclusions s =
     excluded_letters s - present_letters s - \<Union> (set_option ` set (known_letters s))"

definition apply_exclusions :: "char set \<Rightarrow> string set \<Rightarrow> string set" where
  "apply_exclusions excl filtered = {word \<in> filtered. \<forall>letter\<in>excl. letter \<notin> set word}"

text \<open>The count bounds. \<open>non_gray_counts\<close> is built by the loop over the zipped pair.\<close>

fun non_gray_loop :: "(char \<times> char) list \<Rightarrow> counter \<Rightarrow> counter" where
  "non_gray_loop [] non_gray_counts = non_gray_counts"
| "non_gray_loop ((letter, status) # rest) non_gray_counts =
     non_gray_loop rest
       (if status = CHR ''G'' \<or> status = CHR ''Y''
        then non_gray_counts(letter := non_gray_counts letter + 1)
        else non_gray_counts)"

text \<open>
  The keys of \<open>Counter(guess)\<close> in iteration order: the distinct letters of the guess, by
  first occurrence.
\<close>

definition counter_keys :: "string \<Rightarrow> char list" where
  "counter_keys guess = rev (remdups (rev guess))"

text \<open>
  \<open>min_letter_counts\<close> is a \<open>Counter\<close> (reading a missing key gives 0 and does not insert
  it), \<open>max_letter_counts\<close> a \<open>defaultdict(lambda: 5)\<close>. Both are iterated by \<open>.items()\<close>
  afterwards, so their keys matter and they are maps.
\<close>

definition counter_get :: "(char \<rightharpoonup> nat) \<Rightarrow> char \<Rightarrow> nat" where
  "counter_get m c = (case m c of None \<Rightarrow> 0 | Some n \<Rightarrow> n)"

definition default5_get :: "(char \<rightharpoonup> nat) \<Rightarrow> char \<Rightarrow> nat" where
  "default5_get m c = (case m c of None \<Rightarrow> 5 | Some n \<Rightarrow> n)"

fun letters_loop ::
  "char list \<Rightarrow> counter \<Rightarrow> counter \<Rightarrow> char set \<Rightarrow>
   (char \<rightharpoonup> nat) \<times> (char \<rightharpoonup> nat) \<Rightarrow> (char \<rightharpoonup> nat) \<times> (char \<rightharpoonup> nat)" where
  "letters_loop [] guess_counts non_gray_counts excl mm = mm"
| "letters_loop (letter # rest) guess_counts non_gray_counts excl (mn, mx) =
     (let mn' = mn(letter \<mapsto> max (counter_get mn letter) (non_gray_counts letter));
          mx' = (if non_gray_counts letter < guess_counts letter \<and> letter \<in> excl
                 then mx(letter \<mapsto> min (default5_get mx letter) (non_gray_counts letter))
                 else mx)
      in letters_loop rest guess_counts non_gray_counts excl (mn', mx'))"

fun count_bounds ::
  "(string \<times> string) list \<Rightarrow> char set \<Rightarrow>
   (char \<rightharpoonup> nat) \<times> (char \<rightharpoonup> nat) \<Rightarrow> (char \<rightharpoonup> nat) \<times> (char \<rightharpoonup> nat)" where
  "count_bounds [] excl mm = mm"
| "count_bounds ((guess, feedback) # rest) excl mm =
     count_bounds rest excl
       (letters_loop (counter_keys guess) (count_list guess)
          (non_gray_loop (zip guess feedback) (\<lambda>_. 0)) excl mm)"

text \<open>The body of the loop \<open>for word in filtered\<close>, with \<open>word_counts = Counter(word)\<close>.\<close>

definition counts_valid :: "(char \<rightharpoonup> nat) \<Rightarrow> (char \<rightharpoonup> nat) \<Rightarrow> string \<Rightarrow> bool" where
  "counts_valid mn mx word =
     ((\<forall>letter\<in>dom mn. \<not> count_list word letter < the (mn letter)) \<and>
      (\<forall>letter\<in>dom mx. \<not> (letter \<in> set word \<and> count_list word letter > the (mx letter))))"

text \<open>
  \<open>filter_words\<close> returns the new candidate set and the solver with its fields updated
  (\<open>self.possible_answers = temp_filtered\<close>).
\<close>

definition filter_words :: "solver \<Rightarrow> py_error + string set \<times> solver" where
  "filter_words s =
     (case update_internal_state_from_history s of
        Inl e \<Rightarrow> Inl e
      | Inr s1 \<Rightarrow>
          (case apply_known 0 (known_letters s1) (possible_answers s1) of
             Inl e \<Rightarrow> Inl e
           | Inr f1 \<Rightarrow>
               (case apply_misplaced 0 (misplaced_letters s1)
                       (apply_present (present_letters s1) f1) of
                  Inl e \<Rightarrow> Inl e
                | Inr f3 \<Rightarrow>
                    (let filtered = apply_exclusions (active_exclusions s1) f3;
                         (mn, mx) = count_bounds (feedback_history s1) (excluded_letters s1)
                                      (Map.empty, Map.empty);
                         temp_filtered = {word \<in> filtered. counts_valid mn mx word}
                     in Inr (temp_filtered, s1\<lparr>possible_answers := temp_filtered\<rparr>)))))"

subsection \<open>Frequencies\<close>

text \<open>
  \<open>calculate_positional_frequencies\<close>: five counters, one per position;
  \<open>positional_frequencies[i]\<close> raises for a word longer than five letters.
\<close>

fun count_word :: "nat \<Rightarrow> string \<Rightarrow> counter list \<Rightarrow> py_error + counter list" where
  "count_word i [] pf = Inr pf"
| "count_word i (letter # rest) pf =
     (if i < length pf
      then count_word (Suc i) rest (pf[i := (pf ! i)(letter := (pf ! i) letter + 1)])
      else Inl IndexError)"

fun count_words :: "string list \<Rightarrow> counter list \<Rightarrow> py_error + counter list" where
  "count_words [] pf = Inr pf"
| "count_words (word # ws) pf =
     (case count_word 0 word pf of Inl e \<Rightarrow> Inl e | Inr pf' \<Rightarrow> count_words ws pf')"

definition calculate_positional_frequencies ::
  "(string set \<Rightarrow> string list) \<Rightarrow> string set \<Rightarrow> py_error + counter list" where
  "calculate_positional_frequencies iter words =
     count_words (iter words) (replicate 5 (\<lambda>_. 0))"

text \<open>\<open>Counter("".join(words))\<close>\<close>

definition calculate_letter_frequencies ::
  "(string set \<Rightarrow> string list) \<Rightarrow> string set \<Rightarrow> counter" where
  "calculate_letter_frequencies iter words = count_list (concat (iter words))"

subsection \<open>\<open>score_word\<close> and \<open>suggest_guess\<close>\<close>

text \<open>
  Scores are Python floats; they are modelled as reals (sums of small integers and halves
  are exact in binary floating point, the two final factors are rounded there).
  \<open>-float('inf')\<close> is \<open>None\<close> in \<open>real option\<close>.
\<close>

fun score_loop ::
  "solver \<Rightarrow> counter list \<Rightarrow> counter \<Rightarrow> bool \<Rightarrow> nat \<Rightarrow> string \<Rightarrow> real \<times> char set \<Rightarrow>
   py_error + real \<times> char set" where
  "score_loop s pf lf elimination_mode i [] acc = Inr acc"
| "score_loop s pf lf elimination_mode i (letter # rest) (score, used_letters) =
     (if letter \<in> excluded_letters s then
        score_loop s pf lf elimination_mode (Suc i) rest (score - 1000, used_letters)
      else if \<not> (i < length (misplaced_letters s) \<and> i < length (known_letters s)) then
        Inl IndexError
      else
        (let score1 = (if letter \<in> misplaced_letters s ! i then score - 50 else score) in
         if letter \<notin> used_letters then
           (if i < length pf then
              (let score2 = score1 + real ((pf ! i) letter);
                   score3 = (if elimination_mode then score2 + real (lf letter) * 0.5
                             else score2)
               in score_loop s pf lf elimination_mode (Suc i) rest
                    (score3, insert letter used_letters))
            else Inl IndexError)
         else score_loop s pf lf elimination_mode (Suc i) rest (score1, used_letters)))"

definition score_word ::
  "solver \<Rightarrow> string \<Rightarrow> counter list \<Rightarrow> counter \<Rightarrow> string set \<Rightarrow> bool \<Rightarrow> py_error + real" where
  "score_word s word pf lf possible elimination_mode =
     (case score_loop s pf lf elimination_mode 0 word (0, {}) of
        Inl e \<Rightarrow> Inl e
      | Inr (score, used_letters) \<Rightarrow>
          (let score' = (if word \<in> possible \<and> \<not> elimination_mode then score * 1.2
                         else score);
               score'' = (if card (set word) < 5 then score' * 0.9 else score')
           in Inr score''))"

text \<open>\<open>score > best_score\<close>, where \<open>best_score\<close> starts as \<open>-float('inf')\<close>.\<close>

definition exceeds :: "real \<Rightarrow> real option \<Rightarrow> bool" where
  "exceeds score best_score = (case best_score of None \<Rightarrow> True | Some b \<Rightarrow> score > b)"

fun suggest_loop ::
  "solver \<Rightarrow> counter list \<Rightarrow> counter \<Rightarrow> string set \<Rightarrow> bool \<Rightarrow> string list \<Rightarrow>
   string \<times> real option \<Rightarrow> py_error + string \<times> real option" where
  "suggest_loop s pf lf current_possible elimination_mode [] best = Inr best"
| "suggest_loop s pf lf current_possible elimination_mode (word # rest) (best_word, best_score) =
     (if \<exists>hist\<in>set (feedback_history s). word = fst hist then
        suggest_loop s pf lf current_possible elimination_mode rest (best_word, best_score)
      else
        (case score_word s word pf lf current_possible elimination_mode of
           Inl e \<Rightarrow> Inl e
         | Inr score \<Rightarrow>
             (let current_best_is_possible = (best_word \<in> current_possible);
                  word_is_possible = (word \<in> current_possible)
              in suggest_loop s pf lf current_possible elimination_mode rest
                   (if exceeds score best_score then (word, Some score)
                    else if best_score = Some score then
                      (if word_is_possible \<and> \<not> current_best_is_possible then
                         (word, best_score)
                       else if word_is_possible = current_best_is_possible \<and> word < best_word
                       then (word, best_score)
                       else (best_word, best_score))
                    else (best_word, best_score)))))"

text \<open>
  \<open>suggest_guess\<close> returns a string: a word, or one of two messages. \<open>iter\<close> gives the
  order in which Python's \<open>list(...)\<close> and \<open>for\<close> walk through a set.
\<close>

definition suggest_guess ::
  "(string set \<Rightarrow> string list) \<Rightarrow> solver \<Rightarrow> bool \<Rightarrow> py_error + string \<times> solver" where
  "suggest_guess iter s elimination_mode =
     (case filter_words s of
        Inl e \<Rightarrow> Inl e
      | Inr (current_possible, s1) \<Rightarrow>
          (if current_possible = {} then Inr (''No valid words remaining.'', s1)
           else if card current_possible = 1 then
             (case iter current_possible of
                [] \<Rightarrow> Inl IndexError
              | word # rest \<Rightarrow> Inr (word, s1))
           else
             (case calculate_positional_frequencies iter current_possible of
                Inl e \<Rightarrow> Inl e
              | Inr positional_frequencies \<Rightarrow>
                  (let letter_frequencies = calculate_letter_frequencies iter current_possible;
                       word_pool = (if elimination_mode then all_words s1 else current_possible)
                   in case suggest_loop s1 positional_frequencies letter_frequencies
                             current_possible elimination_mode (iter word_pool) ([], None) of
                        Inl e \<Rightarrow> Inl e
                      | Inr (best_word, best_score) \<Rightarrow>
                          Inr (if best_word \<noteq> [] then best_word
                               else ''Could not determine best guess.'', s1)))))"

text \<open>
  \<open>__init__\<close>, after the two word files are loaded (\<open>load_words\<close> keeps the stripped,
  lower-cased lines of five alphabetic characters and returns the empty set on failure).
\<close>

definition init_solver :: "string set \<Rightarrow> string set option \<Rightarrow> solver" where
  "init_solver words answers =
     \<lparr>all_words = words,
      possible_answers =
        (case answers of
           None \<Rightarrow> words
         | Some potential_answers \<Rightarrow>
             (if potential_answers \<inter> words = {} then words else potential_answers \<inter> words)),
      feedback_history = [],
      known_letters = replicate 5 None,
      misplaced_letters = replicate 5 {},
      present_letters = {},
      excluded_letters = {}\<rparr>"

text \<open>The interface appends to the history: \<open>solver.feedback_history.append((guess, feedback))\<close>.\<close>

definition append_feedback :: "string \<Rightarrow> string \<Rightarrow> solver \<Rightarrow> solver" where
  "append_feedback guess feedback s =
     s\<lparr>feedback_history := feedback_history s @ [(guess, feedback)]\<rparr>"

section \<open>The first version (Old/Terminal-Based/solver-term.py)\<close>

text \<open>Its \<open>score_word\<close> and \<open>suggest_guess\<close>; \<open>best_score\<close> starts at \<open>-1\<close>.\<close>

fun score_loop_term ::
  "counter list \<Rightarrow> counter \<Rightarrow> bool \<Rightarrow> nat \<Rightarrow> string \<Rightarrow> real \<times> char set \<Rightarrow>
   py_error + real \<times> char set" where
  "score_loop_term pf lf elimination_mode i [] acc = Inr acc"
| "score_loop_term pf lf elimination_mode i (letter # rest) (score, used_letters) =
     (if letter \<notin> used_letters then
        (if i < length pf then
           (let score1 = score + real ((pf ! i) letter);
                score2 = (if elimination_mode then score1 + real (lf letter) else score1)
            in score_loop_term pf lf elimination_mode (Suc i) rest
                 (score2, insert letter used_letters))
         else Inl IndexError)
      else score_loop_term pf lf elimination_mode (Suc i) rest (score, used_letters))"

definition score_word_term ::
  "string \<Rightarrow> counter list \<Rightarrow> counter \<Rightarrow> bool \<Rightarrow> py_error + real" where
  "score_word_term word pf lf elimination_mode =
     map_sum id fst (score_loop_term pf lf elimination_mode 0 word (0, {}))"

fun suggest_loop_term ::
  "counter list \<Rightarrow> counter \<Rightarrow> bool \<Rightarrow> string list \<Rightarrow> string \<times> real \<Rightarrow> py_error + string \<times> real" where
  "suggest_loop_term pf lf elimination_mode [] best = Inr best"
| "suggest_loop_term pf lf elimination_mode (word # rest) (best_word, best_score) =
     (case score_word_term word pf lf elimination_mode of
        Inl e \<Rightarrow> Inl e
      | Inr score \<Rightarrow>
          suggest_loop_term pf lf elimination_mode rest
            (if score > best_score then (word, score) else (best_word, best_score)))"

definition suggest_guess_term ::
  "(string set \<Rightarrow> string list) \<Rightarrow> string set \<Rightarrow> string set \<Rightarrow> bool \<Rightarrow> py_error + string" where
  "suggest_guess_term iter all words elimination_mode =
     (if words = {} then Inr ''No valid words remaining.''
      else
        (case calculate_positional_frequencies iter words of
           Inl e \<Rightarrow> Inl e
         | Inr positional_frequencies \<Rightarrow>
             map_sum id fst
               (suggest_loop_term positional_frequencies
                  (calculate_letter_frequencies iter words) elimination_mode
                  (iter (if elimination_mode then all else words)) ([], -1))))"

section \<open>The latest version (Expiramental/solver (see aistudio chat).py)\<close>

text \<open>
  Its first pass is the one above. In the second pass an ABSENT letter is excluded
  whenever it is neither present nor known; the PRESENT branch also reads
  \<open>self._known_letters[i]\<close>.
\<close>

fun yellows_grays_pass_exp ::
  "nat \<Rightarrow> (char \<times> char) list \<Rightarrow> solver \<times> counter \<Rightarrow> py_error + solver \<times> counter" where
  "yellows_grays_pass_exp i [] sc = Inr sc"
| "yellows_grays_pass_exp i ((letter, status) # rest) (s, confirmed) =
     (if status = CHR ''Y'' then
        (if i < length (misplaced_letters s) \<and> i < length (known_letters s) then
           yellows_grays_pass_exp (Suc i) rest
             (s\<lparr>misplaced_letters :=
                  (misplaced_letters s)[i := insert letter (misplaced_letters s ! i)],
                present_letters := insert letter (present_letters s)\<rparr>,
              confirmed(letter := confirmed letter + 1))
         else Inl IndexError)
      else if status = CHR ''X'' then
        (if letter \<notin> present_letters s \<and> Some letter \<notin> set (known_letters s) then
           yellows_grays_pass_exp (Suc i) rest
             (s\<lparr>excluded_letters := insert letter (excluded_letters s)\<rparr>, confirmed)
         else yellows_grays_pass_exp (Suc i) rest (s, confirmed))
      else yellows_grays_pass_exp (Suc i) rest (s, confirmed))"

fun update_loop_exp :: "(string \<times> string) list \<Rightarrow> solver \<Rightarrow> py_error + solver" where
  "update_loop_exp [] s = Inr s"
| "update_loop_exp ((guess, feedback) # rest) s =
     (case greens_pass 0 (zip guess feedback) (s, \<lambda>_. 0) of
        Inl e \<Rightarrow> Inl e
      | Inr sc \<Rightarrow>
          (case yellows_grays_pass_exp 0 (zip guess feedback) sc of
             Inl e \<Rightarrow> Inl e
           | Inr (s', confirmed) \<Rightarrow> update_loop_exp rest s'))"

definition update_internal_state_from_history_exp :: "solver \<Rightarrow> py_error + solver" where
  "update_internal_state_from_history_exp s =
     update_loop_exp (feedback_history s) (reset_solver_state s)"

text \<open>
  \<open>filter_words\<close>: the position filters test \<open>len(word) == 5\<close> before they index, so they
  cannot raise.
\<close>

fun apply_known_exp :: "nat \<Rightarrow> char option list \<Rightarrow> string set \<Rightarrow> string set" where
  "apply_known_exp i [] filtered = filtered"
| "apply_known_exp i (None # ks) filtered = apply_known_exp (Suc i) ks filtered"
| "apply_known_exp i (Some known_letter # ks) filtered =
     apply_known_exp (Suc i) ks {word \<in> filtered. length word = 5 \<and> word ! i = known_letter}"

fun apply_misplaced_exp :: "nat \<Rightarrow> char set list \<Rightarrow> string set \<Rightarrow> string set" where
  "apply_misplaced_exp i [] filtered = filtered"
| "apply_misplaced_exp i (misplaced_set # ms) filtered =
     apply_misplaced_exp (Suc i) ms
       {word \<in> filtered. \<forall>letter\<in>misplaced_set. length word = 5 \<and> word ! i \<noteq> letter}"

text \<open>
  The count bounds: a minimum per letter as before, and an exact count for a letter that
  has an ABSENT mark in a guess whose non-ABSENT count equals the minimum so far; a later
  deduction overwrites an earlier one.
\<close>

fun letters_loop_exp ::
  "char list \<Rightarrow> (char \<times> char) list \<Rightarrow> counter \<Rightarrow>
   (char \<rightharpoonup> nat) \<times> (char \<rightharpoonup> nat) \<Rightarrow> (char \<rightharpoonup> nat) \<times> (char \<rightharpoonup> nat)" where
  "letters_loop_exp [] zipped non_gray_counts me = me"
| "letters_loop_exp (letter # rest) zipped non_gray_counts (mn, exact) =
     (let mn' = mn(letter \<mapsto> max (counter_get mn letter) (non_gray_counts letter));
          gray_present_in_feedback = (\<exists>(g, fb)\<in>set zipped. fb = CHR ''X'' \<and> g = letter);
          exact' = (if gray_present_in_feedback \<and> non_gray_counts letter = counter_get mn' letter
                    then exact(letter \<mapsto> non_gray_counts letter) else exact)
      in letters_loop_exp rest zipped non_gray_counts (mn', exact'))"

fun count_bounds_exp ::
  "(string \<times> string) list \<Rightarrow> (char \<rightharpoonup> nat) \<times> (char \<rightharpoonup> nat) \<Rightarrow>
   (char \<rightharpoonup> nat) \<times> (char \<rightharpoonup> nat)" where
  "count_bounds_exp [] me = me"
| "count_bounds_exp ((guess, feedback) # rest) me =
     count_bounds_exp rest
       (letters_loop_exp (counter_keys guess) (zip guess feedback)
          (non_gray_loop (zip guess feedback) (\<lambda>_. 0)) me)"

definition counts_valid_exp :: "(char \<rightharpoonup> nat) \<Rightarrow> (char \<rightharpoonup> nat) \<Rightarrow> string \<Rightarrow> bool" where
  "counts_valid_exp mn exact word =
     ((\<forall>letter\<in>dom mn. \<not> count_list word letter < the (mn letter)) \<and>
      (\<forall>letter\<in>dom exact. \<not> count_list word letter \<noteq> the (exact letter)))"

definition filter_words_exp :: "solver \<Rightarrow> py_error + string set \<times> solver" where
  "filter_words_exp s =
     (case update_internal_state_from_history_exp s of
        Inl e \<Rightarrow> Inl e
      | Inr s1 \<Rightarrow>
          (let f1 = apply_known_exp 0 (known_letters s1) (possible_answers s1);
               f2 = apply_present (present_letters s1) f1;
               f3 = apply_misplaced_exp 0 (misplaced_letters s1) f2;
               filtered = apply_exclusions (active_exclusions s1) f3;
               (mn, exact) = count_bounds_exp (feedback_history s1) (Map.empty, Map.empty);
               final_filtered = {word \<in> filtered. counts_valid_exp mn exact word}
           in Inr (final_filtered, s1\<lparr>possible_answers := final_filtered\<rparr>)))"

text \<open>
  \<open>score_word\<close>: \<open>-float('inf')\<close> (here \<open>None\<close>) for a word with an actively excluded letter
  or with a letter other than the known one at a known position.
\<close>

fun score_loop_exp ::
  "solver \<Rightarrow> counter list \<Rightarrow> counter \<Rightarrow> bool \<Rightarrow> nat \<Rightarrow> string \<Rightarrow> real \<times> char set \<Rightarrow>
   py_error + (real \<times> char set) option" where
  "score_loop_exp s pf lf elimination_mode i [] acc = Inr (Some acc)"
| "score_loop_exp s pf lf elimination_mode i (letter # rest) (score, used_letters) =
     (if letter \<in> excluded_letters s \<and> letter \<in> active_exclusions s then Inr None
      else if \<not> i < length (known_letters s) then Inl IndexError
      else if known_letters s ! i \<noteq> None \<and> known_letters s ! i \<noteq> Some letter then Inr None
      else if \<not> i < length (misplaced_letters s) then Inl IndexError
      else
        (let score1 = (if letter \<in> misplaced_letters s ! i then score - 50 else score) in
         if letter \<notin> used_letters then
           (if i < length pf then
              (let letter_score = real ((pf ! i) letter) +
                     (if elimination_mode then real (lf letter) * 0.5 else 0)
               in score_loop_exp s pf lf elimination_mode (Suc i) rest
                    (score1 + letter_score, insert letter used_letters))
            else Inl IndexError)
         else score_loop_exp s pf lf elimination_mode (Suc i) rest
                (score1, insert letter used_letters)))"

definition score_word_exp ::
  "solver \<Rightarrow> string \<Rightarrow> counter list \<Rightarrow> counter \<Rightarrow> string set \<Rightarrow> bool \<Rightarrow>
   py_error + real option" where
  "score_word_exp s word pf lf possible elimination_mode =
     (let penalty_for_duplicates = (if card (set word) < 5 then 0.9 else 1);
          possible_answer_bonus = (if word \<in> possible \<and> \<not> elimination_mode then 1.2 else 1)
      in case score_loop_exp s pf lf elimination_mode 0 word (0, {}) of
           Inl e \<Rightarrow> Inl e
         | Inr None \<Rightarrow> Inr None
         | Inr (Some (score, used_letters)) \<Rightarrow>
             (if \<exists>i<length word. \<not> i < length (known_letters s) then Inl IndexError
              else
                (let green_reuse_penalty =
                       0.95 ^ length (filter (\<lambda>i. known_letters s ! i = Some (word ! i))
                                       [0..<length word])
                 in Inr (Some (score * possible_answer_bonus * penalty_for_duplicates *
                               green_reuse_penalty)))))"

text \<open>
  \<open>suggest_guess\<close> keeps a heap of at most \<open>num_suggestions\<close> items
  \<open>(-score, not is_possible, word)\<close>. Only which items the heap holds matters (the result
  is \<open>sorted\<close>), so the heap is a list: \<open>heappush\<close> adds the item, \<open>heappushpop\<close> adds it and
  takes the smallest item out.
\<close>

type_synonym heap_item = "real \<times> bool \<times> string"

definition heappushpop :: "heap_item list \<Rightarrow> heap_item \<Rightarrow> heap_item list" where
  "heappushpop heap item = remove1 (Min (set (item # heap))) (item # heap)"

fun heap_loop ::
  "solver \<Rightarrow> counter list \<Rightarrow> counter \<Rightarrow> string set \<Rightarrow> bool \<Rightarrow> int \<Rightarrow> string list \<Rightarrow>
   heap_item list \<Rightarrow> py_error + heap_item list" where
  "heap_loop s pf lf current_possible elimination_mode num_suggestions [] heap = Inr heap"
| "heap_loop s pf lf current_possible elimination_mode num_suggestions (word # rest) heap =
     (case score_word_exp s word pf lf current_possible elimination_mode of
        Inl e \<Rightarrow> Inl e
      | Inr None \<Rightarrow>
          heap_loop s pf lf current_possible elimination_mode num_suggestions rest heap
      | Inr (Some score) \<Rightarrow>
          (let heap_item = (- score, \<not> (word \<in> current_possible), word)
           in heap_loop s pf lf current_possible elimination_mode num_suggestions rest
                (if int (length heap) < num_suggestions then heap_item # heap
                 else heappushpop heap heap_item)))"

text \<open>The slice \<open>xs[:n]\<close>; a negative \<open>n\<close> counts from the end.\<close>

definition slice_to :: "int \<Rightarrow> 'a list \<Rightarrow> 'a list" where
  "slice_to n xs = (if 0 \<le> n then take (nat n) xs else take (length xs - nat (- n)) xs)"

definition suggest_guess_exp ::
  "(string set \<Rightarrow> string list) \<Rightarrow> solver \<Rightarrow> bool \<Rightarrow> int \<Rightarrow> py_error + string list \<times> solver" where
  "suggest_guess_exp iter s elimination_mode num_suggestions =
     (case filter_words_exp s of
        Inl e \<Rightarrow> Inl e
      | Inr (current_possible, s1) \<Rightarrow>
          (if current_possible = {} then Inr ([''No valid words remaining.''], s1)
           else if card current_possible = 1 then
             (case iter current_possible of
                [] \<Rightarrow> Inl IndexError
              | word # rest \<Rightarrow> Inr ([word], s1))
           else
             (case calculate_positional_frequencies iter current_possible of
                Inl e \<Rightarrow> Inl e
              | Inr positional_frequencies \<Rightarrow>
                  (let letter_frequencies = calculate_letter_frequencies iter current_possible;
                       word_pool = (if elimination_mode then all_words s1 else current_possible)
                                   - fst ` set (feedback_history s1)
                   in case heap_loop s1 positional_frequencies letter_frequencies
                             current_possible elimination_mode num_suggestions
                             (iter word_pool) [] of
                        Inl e \<Rightarrow> Inl e
                      | Inr top_suggestions_heap \<Rightarrow>
                          (let final_suggestions =
                                 map (\<lambda>(neg_score, not_possible, word). word)
                                   (sort top_suggestions_heap)
                           in if final_suggestions = [] then
                                (if current_possible \<noteq> {} then
                                   Inr (slice_to num_suggestions
                                          (sorted_list_of_set current_possible), s1)
                                 else Inr ([''Could not determine best guess.''], s1))
                              else Inr (final_suggestions, s1))))))"

section \<open>Notions used to state the properties\<close>

text \<open>
  One game, as the interface drives the solver: it calls \<open>suggest_guess\<close>, appends the
  guess and its feedback to the history, and calls \<open>filter_words\<close>. A call that raises
  ends the run.
\<close>

datatype call = FilterWords | SuggestGuess bool | AppendFeedback string string

fun run_call :: "(string set \<Rightarrow> string list) \<Rightarrow> call \<Rightarrow> solver \<Rightarrow> py_error + solver" where
  "run_call iter FilterWords s = map_sum id snd (filter_words s)"
| "run_call iter (SuggestGuess elimination_mode) s =
     map_sum id snd (suggest_guess iter s elimination_mode)"
| "run_call iter (AppendFeedback guess feedback) s = Inr (append_feedback guess feedback s)"

fun run_calls :: "(string set \<Rightarrow> string list) \<Rightarrow> call list \<Rightarrow> solver \<Rightarrow> py_error + solver" where
  "run_calls iter [] s = Inr s"
| "run_calls iter (c # cs) s =
     (case run_call iter c s of Inl e \<Rightarrow> Inl e | Inr s' \<Rightarrow> run_calls iter cs s')"

text \<open>\<open>iter\<close> lists the set \<open>S\<close>: each element once, in some order.\<close>

definition lists_set :: "(string set \<Rightarrow> string list) \<Rightarrow> string set \<Rightarrow> bool" where
  "lists_set iter S = (set (iter S) = S \<and> distinct (iter S))"

text \<open>
  What the loader and the interface guarantee: words of five letters, and history
  entries of a five-letter guess with five feedback characters.
\<close>

definition five_letter_words :: "string set \<Rightarrow> bool" where
  "five_letter_words ws = (\<forall>w\<in>ws. length w = 5)"

definition well_formed_history :: "(string \<times> string) list \<Rightarrow> bool" where
  "well_formed_history h =
     (\<forall>(guess, feedback)\<in>set h. length guess = 5 \<and> length feedback = 5)"

text \<open>Some entry of the history has \<open>letter\<close> at position \<open>i\<close> with feedback \<open>status\<close> there.\<close>

definition marked :: "(string \<times> string) list \<Rightarrow> nat \<Rightarrow> char \<Rightarrow> char \<Rightarrow> bool" where
  "marked h i letter status =
     (\<exists>(guess, feedback)\<in>set h.
        i < length guess \<and> i < length feedback \<and> guess ! i = letter \<and> feedback ! i = status)"

text \<open>No position is marked CORRECT with two different letters.\<close>

definition green_consistent :: "(string \<times> string) list \<Rightarrow> bool" where
  "green_consistent h =
     (\<forall>(g1, f1)\<in>set h. \<forall>(g2, f2)\<in>set h. \<forall>i<5.
        i < length g1 \<and> i < length f1 \<and> i < length g2 \<and> i < length f2 \<and>
        f1 ! i = CHR ''G'' \<and> f2 ! i = CHR ''G'' \<longrightarrow> g1 ! i = g2 ! i)"

text \<open>
  The pair of count bounds \<open>mm'\<close> (minimum counts, maximum counts) constrains a word at
  least as much as \<open>mm\<close>; the maxima of \<open>mm'\<close> stay within the default of 5.
\<close>

definition tighter ::
  "(char \<rightharpoonup> nat) \<times> (char \<rightharpoonup> nat) \<Rightarrow> (char \<rightharpoonup> nat) \<times> (char \<rightharpoonup> nat) \<Rightarrow> bool" where
  "tighter mm mm' =
     ((\<forall>c m. fst mm c = Some m \<longrightarrow> (\<exists>m'. fst mm' c = Some m' \<and> m \<le> m')) \<and>
      (\<forall>c v. snd mm c = Some v \<longrightarrow> (\<exists>v'. snd mm' c = Some v' \<and> v' \<le> v)) \<and>
      (\<forall>c v. snd mm' c = Some v \<longrightarrow> v \<le> 5))"

text \<open>
  The order in which \<open>suggest_guess\<close> prefers words, given their scores \<open>sc\<close> and the
  candidate set \<open>C\<close>: the higher score, then the candidate, then the smaller word.
  \<open>is_best\<close> says that \<open>m\<close> is the preferred word of \<open>S\<close>.
\<close>

definition better :: "(string \<Rightarrow> real) \<Rightarrow> string set \<Rightarrow> string \<Rightarrow> string \<Rightarrow> bool" where
  "better sc C w1 w2 =
     (sc w1 > sc w2 \<or>
      (sc w1 = sc w2 \<and> ((w1 \<in> C \<and> w2 \<notin> C) \<or> ((w1 \<in> C) = (w2 \<in> C) \<and> w1 < w2))))"

definition is_best :: "(string \<Rightarrow> real) \<Rightarrow> string set \<Rightarrow> string set \<Rightarrow> string \<Rightarrow> bool" where
  "is_best sc C S m = (m \<in> S \<and> (\<forall>w\<in>S. w = m \<or> better sc C m w))"

text \<open>
  The standard Wordle comparison the spec refers to (section 3, "replaying the standard
  Wordle comparison"); the repository has no function for it, the player types the
  feedback in. Letters in the right place are CORRECT; the answer's other letters form a
  pool; going through the guess from the left, a letter that is not CORRECT is PRESENT
  when the pool still holds it (one copy is then used up) and ABSENT otherwise.
\<close>

definition unmatched :: "string \<Rightarrow> string \<Rightarrow> char list" where
  "unmatched answer guess = map fst (filter (\<lambda>(a, g). a \<noteq> g) (zip answer guess))"

fun mark :: "(char \<times> char) list \<Rightarrow> char list \<Rightarrow> string" where
  "mark [] pool = []"
| "mark ((a, g) # rest) pool =
     (if a = g then CHR ''G'' # mark rest pool
      else if g \<in> set pool then CHR ''Y'' # mark rest (remove1 g pool)
      else CHR ''X'' # mark rest pool)"

definition wordle_feedback :: "string \<Rightarrow> string \<Rightarrow> string" where
  "wordle_feedback answer guess = mark (zip answer guess) (unmatched answer guess)"

text \<open>Replaying a history entry against \<open>word\<close> reproduces the stored feedback.\<close>

definition replays :: "string \<Rightarrow> string \<times> string \<Rightarrow> bool" where
  "replays word gf = (length (fst gf) = length word \<and> wordle_feedback word (fst gf) = snd gf)"

text \<open>Every feedback character is one of the three symbols.\<close>

definition valid_feedback :: "(string \<times> string) list \<Rightarrow> bool" where
  "valid_feedback h =
     (\<forall>(guess, feedback)\<in>set h. set feedback \<subseteq> {CHR ''G'', CHR ''Y'', CHR ''X''})"

text \<open>
  No letter is marked ABSENT in an entry when that entry or an earlier one marks it CORRECT
  or PRESENT. In such a history an ABSENT mark always says that the letter does not occur.
\<close>

definition absent_unmixed :: "(string \<times> string) list \<Rightarrow> bool" where
  "absent_unmixed h =
     (\<forall>n<length h. \<forall>i c. marked [h ! n] i c (CHR ''X'') \<longrightarrow>
        (\<forall>j. \<not> marked (take (Suc n) h) j c (CHR ''G'') \<and>
             \<not> marked (take (Suc n) h) j c (CHR ''Y'')))"

text \<open>An invariant of the state update: every known letter is a present letter.\<close>

definition known_present :: "solver \<Rightarrow> bool" where
  "known_present s = (\<forall>c. Some c \<in> set (known_letters s) \<longrightarrow> c \<in> present_letters s)"

text \<open>The number of CORRECT and PRESENT marks that the entry \<open>gf\<close> gives the letter \<open>c\<close>.\<close>

definition confirmed_count :: "string \<times> string \<Rightarrow> char \<Rightarrow> nat" where
  "confirmed_count gf c =
     length (filter (\<lambda>(l, st). l = c \<and> (st = CHR ''G'' \<or> st = CHR ''Y''))
               (zip (fst gf) (snd gf)))"

text \<open>
  The letter \<open>c\<close> is in the set \<open>excl\<close> (the \<open>_excluded_letters\<close> of the rebuilt state) and
  some entry has \<open>c\<close> in its guess without marking any copy CORRECT or PRESENT: the count
  step then allows no copy of \<open>c\<close>.
\<close>

definition capped_at_zero :: "(string \<times> string) list \<Rightarrow> char set \<Rightarrow> char \<Rightarrow> bool" where
  "capped_at_zero h excl c =
     (c \<in> excl \<and> (\<exists>gf\<in>set h. c \<in> set (fst gf) \<and> confirmed_count gf c = 0))"

section \<open>Properties\<close>

subsection \<open>What the state update and the filter leave alone\<close>

lemma greens_pass_frame:
  "greens_pass i ps (s, c) = Inr (s', c') \<Longrightarrow>
     possible_answers s' = possible_answers s \<and> all_words s' = all_words s \<and>
     feedback_history s' = feedback_history s \<and>
     misplaced_letters s' = misplaced_letters s \<and> excluded_letters s' = excluded_letters s \<and>
     length (known_letters s') = length (known_letters s)"
proof (induction i ps "(s, c)" arbitrary: s c rule: greens_pass.induct)
  case (1 i sc)
  then show ?case by simp
next
  case (2 i letter status rest s confirmed)
  then show ?case by (auto split: if_splits)
qed

lemma yellows_grays_pass_frame:
  "yellows_grays_pass i ps cur (s, c) = Inr (s', c') \<Longrightarrow>
     possible_answers s' = possible_answers s \<and> all_words s' = all_words s \<and>
     feedback_history s' = feedback_history s \<and>
     known_letters s' = known_letters s \<and>
     length (misplaced_letters s') = length (misplaced_letters s)"
proof (induction i ps cur "(s, c)" arbitrary: s c rule: yellows_grays_pass.induct)
  case (1 i cur sc)
  then show ?case by simp
next
  case (2 i letter status rest cur s confirmed)
  then show ?case by (auto split: if_splits)
qed

lemma update_loop_frame:
  "update_loop h s = Inr s' \<Longrightarrow>
     possible_answers s' = possible_answers s \<and> all_words s' = all_words s \<and>
     feedback_history s' = feedback_history s \<and>
     length (known_letters s') = length (known_letters s) \<and>
     length (misplaced_letters s') = length (misplaced_letters s)"
proof (induction h arbitrary: s)
  case Nil
  then show ?case by simp
next
  case (Cons gf h)
  obtain guess feedback where gf: "gf = (guess, feedback)" by (cases gf)
  from Cons.prems gf obtain s1 c1 s2 c2 where
    g: "greens_pass 0 (zip guess feedback) (s, \<lambda>_. 0) = Inr (s1, c1)" and
    y: "yellows_grays_pass 0 (zip guess feedback) (count_list guess) (s1, c1) = Inr (s2, c2)" and
    r: "update_loop h s2 = Inr s'"
    by (auto split: sum.splits)
  from greens_pass_frame[OF g] yellows_grays_pass_frame[OF y] Cons.IH[OF r]
  show ?case by simp
qed

lemma update_frame:
  "update_internal_state_from_history s = Inr s' \<Longrightarrow>
     possible_answers s' = possible_answers s \<and> all_words s' = all_words s \<and>
     feedback_history s' = feedback_history s \<and>
     length (known_letters s') = 5 \<and> length (misplaced_letters s') = 5"
  unfolding update_internal_state_from_history_def
  by (drule update_loop_frame) (simp add: reset_solver_state_def)

lemma apply_known_subset: "apply_known i ks F = Inr F' \<Longrightarrow> F' \<subseteq> F"
  by (induction i ks F rule: apply_known.induct) (auto split: if_splits)

lemma apply_misplaced_subset: "apply_misplaced i ms F = Inr F' \<Longrightarrow> F' \<subseteq> F"
  by (induction i ms F rule: apply_misplaced.induct) (auto split: if_splits)

lemma filter_words_shrinks:
  assumes "filter_words s = Inr (C, s')"
  shows "C \<subseteq> possible_answers s" and "possible_answers s' = C"
    and "all_words s' = all_words s" and "feedback_history s' = feedback_history s"
proof -
  from assms obtain s1 f1 f3 where
    u: "update_internal_state_from_history s = Inr s1" and
    k: "apply_known 0 (known_letters s1) (possible_answers s1) = Inr f1" and
    m: "apply_misplaced 0 (misplaced_letters s1) (apply_present (present_letters s1) f1) = Inr f3" and
    C: "C = {word \<in> apply_exclusions (active_exclusions s1) f3.
             case count_bounds (feedback_history s1) (excluded_letters s1) (Map.empty, Map.empty)
             of (mn, mx) \<Rightarrow> counts_valid mn mx word}" and
    s': "s' = s1\<lparr>possible_answers := C\<rparr>"
    by (auto simp: filter_words_def Let_def split: sum.splits prod.splits)
  from update_frame[OF u] apply_known_subset[OF k] apply_misplaced_subset[OF m]
  show "C \<subseteq> possible_answers s"
    unfolding C apply_exclusions_def apply_present_def by auto
  show "possible_answers s' = C" by (simp add: s')
  from update_frame[OF u] show "all_words s' = all_words s" "feedback_history s' = feedback_history s"
    by (simp_all add: s')
qed

subsection \<open>The stored pool only shrinks\<close>

lemma suggest_guess_state:
  assumes "suggest_guess iter s elimination_mode = Inr (w, s')"
  shows "\<exists>C. filter_words s = Inr (C, s')"
  using assms unfolding suggest_guess_def
  by (auto simp: Let_def split: sum.splits prod.splits if_splits list.splits)

lemma run_call_shrinks:
  assumes "run_call iter c s = Inr s'"
  shows "possible_answers s' \<subseteq> possible_answers s"
proof (cases c)
  case FilterWords
  with assms obtain C where "filter_words s = Inr (C, s')"
    by (cases "filter_words s") auto
  from filter_words_shrinks(1,2)[OF this] show ?thesis by simp
next
  case (SuggestGuess elimination_mode)
  with assms obtain w where "suggest_guess iter s elimination_mode = Inr (w, s')"
    by (cases "suggest_guess iter s elimination_mode") auto
  from suggest_guess_state[OF this] obtain C where "filter_words s = Inr (C, s')" ..
  from filter_words_shrinks(1,2)[OF this] show ?thesis by simp
next
  case (AppendFeedback guess feedback)
  with assms show ?thesis by (auto simp: append_feedback_def)
qed

lemma run_calls_shrinks:
  "run_calls iter cs s = Inr s' \<Longrightarrow> possible_answers s' \<subseteq> possible_answers s"
proof (induction cs arbitrary: s)
  case Nil
  then show ?case by simp
next
  case (Cons c cs)
  then obtain s1 where c: "run_call iter c s = Inr s1" and r: "run_calls iter cs s1 = Inr s'"
    by (auto split: sum.splits)
  from run_call_shrinks[OF c] Cons.IH[OF r] show ?case by blast
qed

lemma Inr_projr: "\<not> isl x \<Longrightarrow> \<exists>a b. x = Inr (a, b)"
  by (cases x) auto

text \<open>
  Claim C9. A successful call of \<open>filter_words\<close> stores the set it returns in
  \<open>possible_answers\<close>, and that set is a subset of the field's value before the call.
  Hence over any sequence of \<open>filter_words\<close> and \<open>suggest_guess\<close> calls of one game (with
  feedback appended in between) the stored pool never gains a word.
\<close>

theorem possible_answers_never_gains:
  "(filter_words s = Inr (C, s1) \<longrightarrow> possible_answers s1 = C \<and> C \<subseteq> possible_answers s) \<and>
   (run_calls iter calls s = Inr s' \<longrightarrow> possible_answers s' \<subseteq> possible_answers s)"
  using filter_words_shrinks(1,2)[of s C s1] run_calls_shrinks[of iter calls s s'] by blast

theorem possible_answers_never_gains_witness:
  "\<exists>C s1 s'.
     filter_words ((init_solver {''siren'', ''seaty'', ''spelt''} None)
                    \<lparr>feedback_history := [(''speed'', ''GXYXX'')]\<rparr>) = Inr (C, s1) \<and>
     run_calls sorted_list_of_set
       [SuggestGuess True, AppendFeedback ''speed'' ''GXYXX'', FilterWords, SuggestGuess False]
       (init_solver {''siren'', ''seaty'', ''spelt''} None) = Inr s' \<and>
     possible_answers s1 = C \<and>
     C \<subseteq> {''siren'', ''seaty'', ''spelt''} \<and>
     possible_answers s' \<subseteq> {''siren'', ''seaty'', ''spelt''}"
proof -
  let ?ini = "init_solver {''siren'', ''seaty'', ''spelt''} None"
  let ?s = "?ini\<lparr>feedback_history := [(''speed'', ''GXYXX'')]\<rparr>"
  let ?calls = "[SuggestGuess True, AppendFeedback ''speed'' ''GXYXX'', FilterWords, SuggestGuess False]"
  have "\<not> isl (filter_words ?s)" by code_simp
  then obtain C s1 where f: "filter_words ?s = Inr (C, s1)"
    using Inr_projr by blast
  have "\<not> isl (run_calls sorted_list_of_set ?calls ?ini)" by code_simp
  then obtain s' where r: "run_calls sorted_list_of_set ?calls ?ini = Inr s'"
    by (cases "run_calls sorted_list_of_set ?calls ?ini") auto
  have p: "possible_answers ?s = {''siren'', ''seaty'', ''spelt''}"
          "possible_answers ?ini = {''siren'', ''seaty'', ''spelt''}"
    by (simp_all add: init_solver_def)
  have a: "possible_answers s1 = C \<and> C \<subseteq> possible_answers ?s"
    by (rule mp[OF conjunct1[OF possible_answers_never_gains] f])
  have b: "possible_answers s' \<subseteq> possible_answers ?ini"
    by (rule mp[OF conjunct2[OF possible_answers_never_gains] r])
  from a have a1: "possible_answers s1 = C" and a2: "C \<subseteq> {''siren'', ''seaty'', ''spelt''}"
    unfolding p by blast+
  from b have b1: "possible_answers s' \<subseteq> {''siren'', ''seaty'', ''spelt''}"
    unfolding p .
  show ?thesis
    by (intro exI conjI) (rule f r a1 a2 b1)+
qed

subsection \<open>The state rebuilt from the history\<close>

lemma greens_pass_present:
  "greens_pass i ps (s, cf) = Inr (s', cf') \<Longrightarrow>
     present_letters s' = present_letters s \<union> {c. (c, CHR ''G'') \<in> set ps}"
proof (induction i ps "(s, cf)" arbitrary: s cf rule: greens_pass.induct)
  case (1 i sc)
  then show ?case by simp
next
  case (2 i letter status rest s confirmed)
  then show ?case by (auto split: if_splits)
qed

lemma greens_pass_known:
  "greens_pass i ps (s, cf) = Inr (s', cf') \<Longrightarrow> k < length (known_letters s) \<Longrightarrow>
     known_letters s' ! k =
       (if i \<le> k \<and> k < i + length ps \<and> snd (ps ! (k - i)) = CHR ''G''
        then Some (fst (ps ! (k - i))) else known_letters s ! k)"
proof (induction i ps "(s, cf)" arbitrary: s cf rule: greens_pass.induct)
  case (1 i sc)
  then show ?case by auto
next
  case (2 i letter status rest s confirmed)
  show ?case
  proof (cases "status = CHR ''G''")
    case True
    with "2.prems" have i: "i < length (known_letters s)" by (auto split: if_splits)
    let ?s = "s\<lparr>known_letters := (known_letters s)[i := Some letter],
                present_letters := insert letter (present_letters s)\<rparr>"
    from True i "2.prems" have
      "greens_pass (Suc i) rest (?s, confirmed(letter := confirmed letter + 1)) = Inr (s', cf')"
      by simp
    from "2.hyps"(1)[OF True i this] "2.prems"(2)
    have "known_letters s' ! k =
       (if Suc i \<le> k \<and> k < Suc i + length rest \<and> snd (rest ! (k - Suc i)) = CHR ''G''
        then Some (fst (rest ! (k - Suc i))) else (known_letters s)[i := Some letter] ! k)"
      by simp
    with True "2.prems"(2) show ?thesis
      by (cases "k = i") (auto simp: nth_Cons' Suc_diff_Suc)
  next
    case False
    with "2.prems" have "greens_pass (Suc i) rest (s, confirmed) = Inr (s', cf')" by simp
    from "2.hyps"(2)[OF False this "2.prems"(2)] False show ?thesis
      by (cases "k = i") (auto simp: nth_Cons' Suc_diff_Suc)
  qed
qed

lemma yellows_grays_pass_present:
  "yellows_grays_pass i ps cur (s, cf) = Inr (s', cf') \<Longrightarrow>
     present_letters s' = present_letters s \<union> {c. (c, CHR ''Y'') \<in> set ps}"
proof (induction i ps cur "(s, cf)" arbitrary: s cf rule: yellows_grays_pass.induct)
  case (1 i cur sc)
  then show ?case by simp
next
  case (2 i letter status rest cur s confirmed)
  then show ?case by (auto split: if_splits)
qed

lemma yellows_grays_pass_excluded:
  "yellows_grays_pass i ps cur (s, cf) = Inr (s', cf') \<Longrightarrow>
     excluded_letters s \<subseteq> excluded_letters s' \<and>
     excluded_letters s' \<subseteq> excluded_letters s \<union> {c. (c, CHR ''X'') \<in> set ps}"
proof (induction i ps cur "(s, cf)" arbitrary: s cf rule: yellows_grays_pass.induct)
  case (1 i cur sc)
  then show ?case by simp
next
  case (2 i letter status rest cur s confirmed)
  then show ?case by (auto split: if_splits)
qed

lemma yellows_grays_pass_misplaced:
  "yellows_grays_pass i ps cur (s, cf) = Inr (s', cf') \<Longrightarrow> k < length (misplaced_letters s) \<Longrightarrow>
     misplaced_letters s' ! k =
       (if i \<le> k \<and> k < i + length ps \<and> snd (ps ! (k - i)) = CHR ''Y''
        then insert (fst (ps ! (k - i))) (misplaced_letters s ! k) else misplaced_letters s ! k)"
proof (induction i ps cur "(s, cf)" arbitrary: s cf rule: yellows_grays_pass.induct)
  case (1 i cur sc)
  then show ?case by auto
next
  case (2 i letter status rest cur s confirmed)
  show ?case
  proof (cases "status = CHR ''Y''")
    case True
    with "2.prems" have i: "i < length (misplaced_letters s)" by (auto split: if_splits)
    let ?s = "s\<lparr>misplaced_letters :=
                  (misplaced_letters s)[i := insert letter (misplaced_letters s ! i)],
                present_letters := insert letter (present_letters s)\<rparr>"
    from True i "2.prems" have
      "yellows_grays_pass (Suc i) rest cur (?s, confirmed(letter := confirmed letter + 1)) = Inr (s', cf')"
      by simp
    from "2.hyps"(1)[OF True i this] "2.prems"(2)
    have "misplaced_letters s' ! k =
       (if Suc i \<le> k \<and> k < Suc i + length rest \<and> snd (rest ! (k - Suc i)) = CHR ''Y''
        then insert (fst (rest ! (k - Suc i)))
               ((misplaced_letters s)[i := insert letter (misplaced_letters s ! i)] ! k)
        else (misplaced_letters s)[i := insert letter (misplaced_letters s ! i)] ! k)"
      by simp
    with True "2.prems"(2) show ?thesis
      by (cases "k = i") (auto simp: nth_Cons' Suc_diff_Suc)
  next
    case False
    from False "2.prems"(1) obtain s2 where
      step: "yellows_grays_pass (Suc i) rest cur (s2, confirmed) = Inr (s', cf')" and
      same: "misplaced_letters s2 = misplaced_letters s"
      by (auto split: if_splits)
    have "misplaced_letters s' ! k =
       (if Suc i \<le> k \<and> k < Suc i + length rest \<and> snd (rest ! (k - Suc i)) = CHR ''Y''
        then insert (fst (rest ! (k - Suc i))) (misplaced_letters s ! k)
        else misplaced_letters s ! k)"
    proof (cases "status = CHR ''X''")
      case X: True
      show ?thesis
      proof (cases "confirmed letter < cur letter")
        case c: True
        show ?thesis
        proof (cases "letter \<notin> present_letters s \<and> Some letter \<notin> set (known_letters s)")
          case True
          with "2.prems"(1) False X c have
            "yellows_grays_pass (Suc i) rest cur
               (s\<lparr>excluded_letters := insert letter (excluded_letters s)\<rparr>, confirmed) = Inr (s', cf')"
            by simp
          from "2.hyps"(2)[OF False X c True this] "2.prems"(2) show ?thesis by simp
        next
          case nt: False
          with "2.prems"(1) False X c have
            "yellows_grays_pass (Suc i) rest cur (s, confirmed) = Inr (s', cf')"
            by auto
          from "2.hyps"(3)[OF False X c nt this] "2.prems"(2) show ?thesis by simp
        qed
      next
        case c: False
        with "2.prems"(1) False X have
          "yellows_grays_pass (Suc i) rest cur (s, confirmed) = Inr (s', cf')"
          by simp
        from "2.hyps"(4)[OF False X c this] "2.prems"(2) show ?thesis by simp
      qed
    next
      case X: False
      with "2.prems"(1) False have
        "yellows_grays_pass (Suc i) rest cur (s, confirmed) = Inr (s', cf')"
        by simp
      from "2.hyps"(5)[OF False X this] "2.prems"(2) show ?thesis by simp
    qed
    with False show ?thesis
      by (cases "k = i") (auto simp: nth_Cons' Suc_diff_Suc)
  qed
qed

lemma marked_Nil [simp]: "\<not> marked [] i c st"
  by (simp add: marked_def)

lemma marked_Cons:
  "marked ((g, f) # h) i c st \<longleftrightarrow>
     (i < length g \<and> i < length f \<and> g ! i = c \<and> f ! i = st) \<or> marked h i c st"
  by (auto simp: marked_def)

lemma marked_Cons':
  "marked ((g, f) # h) i c st \<longleftrightarrow> marked [(g, f)] i c st \<or> marked h i c st"
  by (auto simp: marked_def)

lemma marked_append: "marked (h1 @ h2) i c st \<longleftrightarrow> marked h1 i c st \<or> marked h2 i c st"
  by (auto simp: marked_def)

lemma in_zip_marked: "(c, st) \<in> set (zip g f) \<longleftrightarrow> (\<exists>i. marked [(g, f)] i c st)"
  by (auto simp: marked_def in_set_zip)

lemma update_step:
  assumes g: "greens_pass 0 (zip g f) (s, c0) = Inr (s1, c1)"
      and y: "yellows_grays_pass 0 (zip g f) cur (s1, c1) = Inr (s2, c2)"
  shows "present_letters s2 =
           present_letters s \<union> {c. \<exists>i. marked [(g, f)] i c (CHR ''G'') \<or> marked [(g, f)] i c (CHR ''Y'')}"
    and "excluded_letters s \<subseteq> excluded_letters s2"
    and "excluded_letters s2 \<subseteq> excluded_letters s \<union> {c. \<exists>i. marked [(g, f)] i c (CHR ''X'')}"
    and "k < length (known_letters s) \<Longrightarrow>
           known_letters s2 ! k =
             (if k < length g \<and> k < length f \<and> f ! k = CHR ''G'' then Some (g ! k)
              else known_letters s ! k)"
    and "k < length (misplaced_letters s) \<Longrightarrow>
           misplaced_letters s2 ! k = misplaced_letters s ! k \<union> {c. marked [(g, f)] k c (CHR ''Y'')}"
    and "length (known_letters s2) = length (known_letters s)"
    and "length (misplaced_letters s2) = length (misplaced_letters s)"
proof -
  note gf = greens_pass_frame[OF g] and yf = yellows_grays_pass_frame[OF y]
  from greens_pass_present[OF g] yellows_grays_pass_present[OF y]
  show "present_letters s2 =
           present_letters s \<union> {c. \<exists>i. marked [(g, f)] i c (CHR ''G'') \<or> marked [(g, f)] i c (CHR ''Y'')}"
    by (auto simp: in_zip_marked)
  from yellows_grays_pass_excluded[OF y] gf
  show "excluded_letters s \<subseteq> excluded_letters s2"
    and "excluded_letters s2 \<subseteq> excluded_letters s \<union> {c. \<exists>i. marked [(g, f)] i c (CHR ''X'')}"
    by (auto simp: in_zip_marked)
  show "known_letters s2 ! k =
             (if k < length g \<and> k < length f \<and> f ! k = CHR ''G'' then Some (g ! k)
              else known_letters s ! k)" if "k < length (known_letters s)"
    using greens_pass_known[OF g that] yf by auto
  show "misplaced_letters s2 ! k = misplaced_letters s ! k \<union> {c. marked [(g, f)] k c (CHR ''Y'')}"
    if "k < length (misplaced_letters s)"
  proof -
    from that gf have "k < length (misplaced_letters s1)" by simp
    from yellows_grays_pass_misplaced[OF y this] gf show ?thesis
      by (auto simp: marked_def)
  qed
  from gf yf show "length (known_letters s2) = length (known_letters s)"
    and "length (misplaced_letters s2) = length (misplaced_letters s)" by simp_all
qed

lemma update_loop_cases:
  assumes "update_loop ((g, f) # h) s = Inr s'"
  obtains s1 c1 s2 c2 where
    "greens_pass 0 (zip g f) (s, \<lambda>_. 0) = Inr (s1, c1)"
    "yellows_grays_pass 0 (zip g f) (count_list g) (s1, c1) = Inr (s2, c2)"
    "update_loop h s2 = Inr s'"
  using assms by (auto split: sum.splits)

lemma update_loop_present:
  "update_loop h s = Inr s' \<Longrightarrow>
     present_letters s' =
       present_letters s \<union> {c. \<exists>i. marked h i c (CHR ''G'') \<or> marked h i c (CHR ''Y'')}"
proof (induction h arbitrary: s)
  case Nil
  then show ?case by simp
next
  case (Cons gf h)
  obtain g f where gf: "gf = (g, f)" by (cases gf)
  from Cons.prems[unfolded gf] obtain s1 c1 s2 c2 where
    a: "greens_pass 0 (zip g f) (s, \<lambda>_. 0) = Inr (s1, c1)" and
    b: "yellows_grays_pass 0 (zip g f) (count_list g) (s1, c1) = Inr (s2, c2)" and
    c: "update_loop h s2 = Inr s'"
    by (rule update_loop_cases)
  have m: "{c. \<exists>i. marked ((g, f) # h) i c (CHR ''G'') \<or> marked ((g, f) # h) i c (CHR ''Y'')} =
           {c. \<exists>i. marked [(g, f)] i c (CHR ''G'') \<or> marked [(g, f)] i c (CHR ''Y'')} \<union>
           {c. \<exists>i. marked h i c (CHR ''G'') \<or> marked h i c (CHR ''Y'')}"
    unfolding marked_Cons'[of g f h] by blast
  from update_step(1)[OF a b] Cons.IH[OF c] show ?case
    unfolding gf m by blast
qed

lemma update_loop_excluded:
  "update_loop h s = Inr s' \<Longrightarrow>
     excluded_letters s \<subseteq> excluded_letters s' \<and>
     excluded_letters s' \<subseteq> excluded_letters s \<union> {c. \<exists>i. marked h i c (CHR ''X'')}"
proof (induction h arbitrary: s)
  case Nil
  then show ?case by simp
next
  case (Cons gf h)
  obtain g f where gf: "gf = (g, f)" by (cases gf)
  from Cons.prems[unfolded gf] obtain s1 c1 s2 c2 where
    a: "greens_pass 0 (zip g f) (s, \<lambda>_. 0) = Inr (s1, c1)" and
    b: "yellows_grays_pass 0 (zip g f) (count_list g) (s1, c1) = Inr (s2, c2)" and
    c: "update_loop h s2 = Inr s'"
    by (rule update_loop_cases)
  have m: "{c. \<exists>i. marked ((g, f) # h) i c (CHR ''X'')} =
           {c. \<exists>i. marked [(g, f)] i c (CHR ''X'')} \<union> {c. \<exists>i. marked h i c (CHR ''X'')}"
    unfolding marked_Cons'[of g f h] by blast
  from update_step(2,3)[OF a b] Cons.IH[OF c] show ?case
    unfolding gf m by blast
qed

lemma update_loop_misplaced:
  "update_loop h s = Inr s' \<Longrightarrow> k < length (misplaced_letters s) \<Longrightarrow>
     misplaced_letters s' ! k = misplaced_letters s ! k \<union> {c. marked h k c (CHR ''Y'')}"
proof (induction h arbitrary: s)
  case Nil
  then show ?case by simp
next
  case (Cons gf h)
  obtain g f where gf: "gf = (g, f)" by (cases gf)
  from Cons.prems(1)[unfolded gf] obtain s1 c1 s2 c2 where
    a: "greens_pass 0 (zip g f) (s, \<lambda>_. 0) = Inr (s1, c1)" and
    b: "yellows_grays_pass 0 (zip g f) (count_list g) (s1, c1) = Inr (s2, c2)" and
    c: "update_loop h s2 = Inr s'"
    by (rule update_loop_cases)
  from update_step(7)[OF a b] Cons.prems(2) have k: "k < length (misplaced_letters s2)" by simp
  have m: "{c. marked ((g, f) # h) k c (CHR ''Y'')} =
           {c. marked [(g, f)] k c (CHR ''Y'')} \<union> {c. marked h k c (CHR ''Y'')}"
    unfolding marked_Cons'[of g f h] by blast
  from update_step(5)[OF a b Cons.prems(2)] Cons.IH[OF c k] show ?case
    unfolding gf m by blast
qed

lemma update_loop_known:
  "update_loop h s = Inr s' \<Longrightarrow> k < length (known_letters s) \<Longrightarrow>
     known_letters s' ! k = Some c \<Longrightarrow>
     known_letters s ! k = Some c \<or> marked h k c (CHR ''G'')"
proof (induction h arbitrary: s)
  case Nil
  then show ?case by simp
next
  case (Cons gf h)
  obtain g f where gf: "gf = (g, f)" by (cases gf)
  from Cons.prems(1)[unfolded gf] obtain s1 c1 s2 c2 where
    a: "greens_pass 0 (zip g f) (s, \<lambda>_. 0) = Inr (s1, c1)" and
    b: "yellows_grays_pass 0 (zip g f) (count_list g) (s1, c1) = Inr (s2, c2)" and
    c: "update_loop h s2 = Inr s'"
    by (rule update_loop_cases)
  from update_step(6)[OF a b] Cons.prems(2) have k: "k < length (known_letters s2)" by simp
  from Cons.IH[OF c k Cons.prems(3)] update_step(4)[OF a b Cons.prems(2)] show ?case
    unfolding gf by (auto simp: marked_Cons split: if_splits)
qed

lemma update_loop_known_kept:
  "update_loop h s = Inr s' \<Longrightarrow> k < length (known_letters s) \<Longrightarrow>
     known_letters s ! k = Some c \<Longrightarrow> (\<forall>d. marked h k d (CHR ''G'') \<longrightarrow> d = c) \<Longrightarrow>
     known_letters s' ! k = Some c"
proof (induction h arbitrary: s)
  case Nil
  then show ?case by simp
next
  case (Cons gf h)
  obtain g f where gf: "gf = (g, f)" by (cases gf)
  from Cons.prems(1)[unfolded gf] obtain s1 c1 s2 c2 where
    a: "greens_pass 0 (zip g f) (s, \<lambda>_. 0) = Inr (s1, c1)" and
    b: "yellows_grays_pass 0 (zip g f) (count_list g) (s1, c1) = Inr (s2, c2)" and
    c: "update_loop h s2 = Inr s'"
    by (rule update_loop_cases)
  from update_step(6)[OF a b] Cons.prems(2) have k: "k < length (known_letters s2)" by simp
  from update_step(4)[OF a b Cons.prems(2)] Cons.prems(3,4)
  have k2: "known_letters s2 ! k = Some c"
    unfolding gf by (auto simp: marked_Cons)
  from Cons.prems(4) have "\<forall>d. marked h k d (CHR ''G'') \<longrightarrow> d = c"
    unfolding gf by (auto simp: marked_Cons)
  from Cons.IH[OF c k k2 this] show ?case .
qed

lemma update_loop_append:
  "update_loop (h1 @ h2) s =
     (case update_loop h1 s of Inl e \<Rightarrow> Inl e | Inr s1 \<Rightarrow> update_loop h2 s1)"
  by (induction h1 arbitrary: s) (auto split: sum.splits)

subsection \<open>What \<open>filter_words\<close> keeps\<close>

lemma apply_known_mem:
  "apply_known i ks F = Inr F' \<Longrightarrow>
     (w \<in> F' \<longleftrightarrow> w \<in> F \<and> (\<forall>j<length ks. \<forall>c. ks ! j = Some c \<longrightarrow> w ! (i + j) = c))"
proof (induction i ks F rule: apply_known.induct)
  case (1 i filtered)
  then show ?case by simp
next
  case (2 i ks filtered)
  then show ?case by (auto simp: nth_Cons' All_less_Suc2)
next
  case (3 i known_letter ks filtered)
  then show ?case by (auto simp: nth_Cons' All_less_Suc2 split: if_splits)
qed

lemma apply_misplaced_mem:
  "apply_misplaced i ms F = Inr F' \<Longrightarrow>
     (w \<in> F' \<longleftrightarrow> w \<in> F \<and> (\<forall>j<length ms. \<forall>c\<in>ms ! j. w ! (i + j) \<noteq> c))"
proof (induction i ms F rule: apply_misplaced.induct)
  case (1 i filtered)
  then show ?case by simp
next
  case (2 i misplaced_set ms filtered)
  then show ?case by (auto simp: nth_Cons' All_less_Suc2 split: if_splits)
qed

lemma filter_words_cases:
  assumes "filter_words s = Inr (C, s')"
  obtains s1 f1 f3 mn mx where
    "update_internal_state_from_history s = Inr s1"
    "apply_known 0 (known_letters s1) (possible_answers s) = Inr f1"
    "apply_misplaced 0 (misplaced_letters s1) (apply_present (present_letters s1) f1) = Inr f3"
    "count_bounds (feedback_history s) (excluded_letters s1) (Map.empty, Map.empty) = (mn, mx)"
    "C = {word \<in> apply_exclusions (active_exclusions s1) f3. counts_valid mn mx word}"
    "s' = s1\<lparr>possible_answers := C\<rparr>"
proof -
  from assms obtain s1 where u: "update_internal_state_from_history s = Inr s1"
    by (auto simp: filter_words_def split: sum.splits)
  note fr = update_frame[OF u]
  from assms u obtain f1 where k: "apply_known 0 (known_letters s1) (possible_answers s) = Inr f1"
    by (auto simp: filter_words_def fr split: sum.splits)
  from assms u k obtain f3 where
    m: "apply_misplaced 0 (misplaced_letters s1) (apply_present (present_letters s1) f1) = Inr f3"
    by (auto simp: filter_words_def fr split: sum.splits)
  obtain mn mx where
    b: "count_bounds (feedback_history s) (excluded_letters s1) (Map.empty, Map.empty) = (mn, mx)"
    by (cases "count_bounds (feedback_history s) (excluded_letters s1) (Map.empty, Map.empty)")
  from assms u k m b have
    "C = {word \<in> apply_exclusions (active_exclusions s1) f3. counts_valid mn mx word}"
    "s' = s1\<lparr>possible_answers := C\<rparr>"
    by (auto simp: filter_words_def fr Let_def)
  with u k m b show ?thesis by (rule that)
qed

text \<open>The state rebuilt from the history, read off the history.\<close>

lemma update_state_of_history:
  assumes "update_internal_state_from_history s = Inr s1"
  shows "present_letters s1 =
           {c. \<exists>i. marked (feedback_history s) i c (CHR ''G'') \<or>
                    marked (feedback_history s) i c (CHR ''Y'')}"
    and "excluded_letters s1 \<subseteq> {c. \<exists>i. marked (feedback_history s) i c (CHR ''X'')}"
    and "k < 5 \<Longrightarrow> misplaced_letters s1 ! k = {c. marked (feedback_history s) k c (CHR ''Y'')}"
    and "k < 5 \<Longrightarrow> known_letters s1 ! k = Some c \<Longrightarrow> marked (feedback_history s) k c (CHR ''G'')"
    and "length (known_letters s1) = 5" and "length (misplaced_letters s1) = 5"
proof -
  let ?s0 = "reset_solver_state s"
  from assms have u: "update_loop (feedback_history s) ?s0 = Inr s1"
    by (simp add: update_internal_state_from_history_def)
  have s0: "present_letters ?s0 = {}" "excluded_letters ?s0 = {}"
    "length (known_letters ?s0) = 5" "length (misplaced_letters ?s0) = 5"
    "\<And>k. k < 5 \<Longrightarrow> known_letters ?s0 ! k = None"
    "\<And>k. k < 5 \<Longrightarrow> misplaced_letters ?s0 ! k = {}"
    by (simp_all add: reset_solver_state_def)
  from update_loop_present[OF u] s0 show "present_letters s1 =
           {c. \<exists>i. marked (feedback_history s) i c (CHR ''G'') \<or>
                    marked (feedback_history s) i c (CHR ''Y'')}" by simp
  from update_loop_excluded[OF u] s0
  show "excluded_letters s1 \<subseteq> {c. \<exists>i. marked (feedback_history s) i c (CHR ''X'')}" by simp
  show "misplaced_letters s1 ! k = {c. marked (feedback_history s) k c (CHR ''Y'')}" if "k < 5"
    using update_loop_misplaced[OF u, of k] s0 that by simp
  show "marked (feedback_history s) k c (CHR ''G'')" if "k < 5" "known_letters s1 ! k = Some c"
    using update_loop_known[OF u, of k c] s0 that by simp
  from update_frame[OF assms] show "length (known_letters s1) = 5" "length (misplaced_letters s1) = 5"
    by simp_all
qed

lemma filter_words_mem:
  assumes "filter_words s = Inr (C, s')"
  obtains s1 mn mx where
    "update_internal_state_from_history s = Inr s1"
    "s' = s1\<lparr>possible_answers := C\<rparr>"
    "count_bounds (feedback_history s) (excluded_letters s1) (Map.empty, Map.empty) = (mn, mx)"
    "\<And>w. w \<in> C \<longleftrightarrow>
       w \<in> possible_answers s \<and>
       (\<forall>k<5. \<forall>c. known_letters s1 ! k = Some c \<longrightarrow> w ! k = c) \<and>
       (\<forall>c\<in>present_letters s1. c \<in> set w) \<and>
       (\<forall>k<5. \<forall>c\<in>misplaced_letters s1 ! k. w ! k \<noteq> c) \<and>
       (\<forall>c\<in>active_exclusions s1. c \<notin> set w) \<and>
       counts_valid mn mx w"
proof -
  from assms obtain s1 f1 f3 mn mx where
    u: "update_internal_state_from_history s = Inr s1" and
    k: "apply_known 0 (known_letters s1) (possible_answers s) = Inr f1" and
    m: "apply_misplaced 0 (misplaced_letters s1) (apply_present (present_letters s1) f1) = Inr f3" and
    b: "count_bounds (feedback_history s) (excluded_letters s1) (Map.empty, Map.empty) = (mn, mx)" and
    C: "C = {word \<in> apply_exclusions (active_exclusions s1) f3. counts_valid mn mx word}" and
    s': "s' = s1\<lparr>possible_answers := C\<rparr>"
    by (rule filter_words_cases)
  note len = update_state_of_history(5,6)[OF u]
  have "w \<in> C \<longleftrightarrow>
       w \<in> possible_answers s \<and>
       (\<forall>k<5. \<forall>c. known_letters s1 ! k = Some c \<longrightarrow> w ! k = c) \<and>
       (\<forall>c\<in>present_letters s1. c \<in> set w) \<and>
       (\<forall>k<5. \<forall>c\<in>misplaced_letters s1 ! k. w ! k \<noteq> c) \<and>
       (\<forall>c\<in>active_exclusions s1. c \<notin> set w) \<and>
       counts_valid mn mx w" for w
    using apply_known_mem[OF k, of w] apply_misplaced_mem[OF m, of w] len
    unfolding C apply_exclusions_def apply_present_def by auto
  with u s' b show ?thesis by (rule that)
qed

subsection \<open>Letter frequencies\<close>

lemma count_word_result:
  "i + length w \<le> length pf \<Longrightarrow>
     \<exists>pf'. count_word i w pf = Inr pf' \<and> length pf' = length pf \<and>
       (\<forall>k<length pf. \<forall>c. (pf' ! k) c =
          (pf ! k) c + (if i \<le> k \<and> k < i + length w \<and> w ! (k - i) = c then 1 else 0))"
proof (induction i w pf rule: count_word.induct)
  case (1 i pf)
  then show ?case by auto
next
  case (2 i letter rest pf)
  let ?pf = "pf[i := (pf ! i)(letter := (pf ! i) letter + 1)]"
  from "2.prems" have i: "i < length pf" and l: "Suc i + length rest \<le> length ?pf" by simp_all
  from "2.IH"[OF i l] obtain pf' where
    r: "count_word (Suc i) rest ?pf = Inr pf'" and len: "length pf' = length pf" and
    v: "\<And>k c. k < length pf \<Longrightarrow> (pf' ! k) c =
          (?pf ! k) c + (if Suc i \<le> k \<and> k < Suc i + length rest \<and> rest ! (k - Suc i) = c then 1 else 0)"
    by auto
  have "(pf' ! k) c =
          (pf ! k) c + (if i \<le> k \<and> k < i + length (letter # rest) \<and> (letter # rest) ! (k - i) = c
                        then 1 else 0)" if "k < length pf" for k c
    using v[OF that, of c] that i
    by (cases "k = i") (auto simp: nth_Cons' Suc_diff_Suc nth_list_update)
  with r len i show ?case by simp
qed

lemma count_words_result:
  "\<forall>w\<in>set ws. length w \<le> length pf \<Longrightarrow>
     \<exists>pf'. count_words ws pf = Inr pf' \<and> length pf' = length pf \<and>
       (\<forall>k<length pf. \<forall>c. (pf' ! k) c =
          (pf ! k) c + length (filter (\<lambda>w. k < length w \<and> w ! k = c) ws))"
proof (induction ws arbitrary: pf)
  case Nil
  then show ?case by simp
next
  case (Cons w ws)
  from Cons.prems have "0 + length w \<le> length pf" by simp
  from count_word_result[OF this] obtain pf1 where
    a: "count_word 0 w pf = Inr pf1" and l1: "length pf1 = length pf" and
    v1: "\<And>k c. k < length pf \<Longrightarrow> (pf1 ! k) c = (pf ! k) c + (if k < length w \<and> w ! k = c then 1 else 0)"
    by auto
  from Cons.prems l1 have "\<forall>w\<in>set ws. length w \<le> length pf1" by simp
  from Cons.IH[OF this] obtain pf' where
    b: "count_words ws pf1 = Inr pf'" and l2: "length pf' = length pf1" and
    v2: "\<And>k c. k < length pf1 \<Longrightarrow> (pf' ! k) c =
          (pf1 ! k) c + length (filter (\<lambda>w. k < length w \<and> w ! k = c) ws)"
    by auto
  from a b l1 l2 v1 v2 show ?case by auto
qed

lemma sum_filter_classes:
  "(\<Sum>c\<in>(UNIV :: char set). length (filter (\<lambda>w. P w \<and> f w = c) ws)) = length (filter P ws)"
proof (induction ws)
  case Nil
  then show ?case by simp
next
  case (Cons w ws)
  show ?case
  proof (cases "P w")
    case True
    have "(\<Sum>c\<in>(UNIV :: char set). length (filter (\<lambda>w. P w \<and> f w = c) (w # ws))) =
          (\<Sum>c\<in>(UNIV :: char set). (if f w = c then 1 else 0) + length (filter (\<lambda>w. P w \<and> f w = c) ws))"
      using True by (intro sum.cong) auto
    also have "\<dots> = 1 + length (filter P ws)"
      by (simp add: sum.distrib Cons.IH)
    finally show ?thesis using True by simp
  next
    case False
    then show ?thesis using Cons.IH by simp
  qed
qed

lemma count_list_sum_nth:
  "count_list xs c = (\<Sum>i<length xs. if xs ! i = c then 1 else 0)"
  by (induction xs) (simp_all add: sum.lessThan_Suc_shift del: sum.lessThan_Suc)

lemma count_list_concat_positions:
  "\<forall>w\<in>set ws. length w = n \<Longrightarrow>
     count_list (concat ws) c = (\<Sum>i<n. length (filter (\<lambda>w. i < length w \<and> w ! i = c) ws))"
proof (induction ws)
  case Nil
  then show ?case by simp
next
  case (Cons w ws)
  then have n: "length w = n" and r: "\<forall>w\<in>set ws. length w = n" by simp_all
  have "count_list (concat (w # ws)) c = count_list w c + count_list (concat ws) c"
    by (simp add: count_list_append)
  also have "\<dots> = (\<Sum>i<n. if w ! i = c then 1 else 0) +
                   (\<Sum>i<n. length (filter (\<lambda>w. i < length w \<and> w ! i = c) ws))"
    using Cons.IH[OF r] n by (simp add: count_list_sum_nth)
  also have "\<dots> = (\<Sum>i<n. length (filter (\<lambda>w. i < length w \<and> w ! i = c) (w # ws)))"
    unfolding sum.distrib[symmetric] using n by (intro sum.cong) auto
  finally show ?case .
qed

lemma length_concat_fixed: "\<forall>w\<in>set ws. length w = n \<Longrightarrow> length (concat ws) = n * length ws"
  by (induction ws) simp_all

text \<open>
  Claim C10. For a finite set of five-letter words (listed by \<open>iter\<close>), each of the five
  positional counters sums to the number of words, the letter counter sums to five times
  that number, and a letter's frequency is the sum of its five positional frequencies.
\<close>

theorem frequency_totals:
  assumes "lists_set iter words" and "five_letter_words words"
  shows "\<exists>pf. calculate_positional_frequencies iter words = Inr pf \<and> length pf = 5 \<and>
           (\<forall>i<5. (\<Sum>c\<in>UNIV. (pf ! i) c) = card words) \<and>
           (\<Sum>c\<in>UNIV. calculate_letter_frequencies iter words c) = 5 * card words \<and>
           (\<forall>c. calculate_letter_frequencies iter words c = (\<Sum>i<5. (pf ! i) c))"
proof -
  let ?ws = "iter words"
  from assms(1) have set: "set ?ws = words" and d: "distinct ?ws" by (simp_all add: lists_set_def)
  from d set have card: "card words = length ?ws" using distinct_card by fastforce
  from assms(2) set have five: "\<forall>w\<in>set ?ws. length w = 5" by (simp add: five_letter_words_def)
  then have "\<forall>w\<in>set ?ws. length w \<le> length (replicate 5 (\<lambda>_::char. 0::nat))" by simp
  from count_words_result[OF this] obtain pf where
    r: "count_words ?ws (replicate 5 (\<lambda>_. 0)) = Inr pf" and len: "length pf = 5" and
    v: "\<And>k c. k < 5 \<Longrightarrow> (pf ! k) c = length (filter (\<lambda>w. k < length w \<and> w ! k = c) ?ws)"
    by auto
  have pos: "(\<Sum>c\<in>UNIV. (pf ! i) c) = card words" if "i < 5" for i
  proof -
    have "(\<Sum>c\<in>UNIV. (pf ! i) c) = length (filter (\<lambda>w. i < length w) ?ws)"
      using v[OF that] sum_filter_classes[of "\<lambda>w. i < length w" "\<lambda>w. w ! i" ?ws] by simp
    also have "filter (\<lambda>w. i < length w) ?ws = ?ws"
      using five that by (intro filter_True) simp
    finally show ?thesis by (simp add: card)
  qed
  have lf: "calculate_letter_frequencies iter words c = (\<Sum>i<5. (pf ! i) c)" for c
    unfolding calculate_letter_frequencies_def
    using count_list_concat_positions[OF five, of c] v by simp
  have "(\<Sum>c\<in>UNIV. calculate_letter_frequencies iter words c) = length (concat ?ws)"
    unfolding calculate_letter_frequencies_def by (rule sum_count_set) simp_all
  with length_concat_fixed[OF five] card
  have tot: "(\<Sum>c\<in>UNIV. calculate_letter_frequencies iter words c) = 5 * card words" by simp
  from r len pos tot lf show ?thesis
    unfolding calculate_positional_frequencies_def by blast
qed

theorem frequency_totals_witness:
  "\<exists>pf. calculate_positional_frequencies sorted_list_of_set {''apple'', ''siren'', ''seaty''} = Inr pf \<and>
        length pf = 5 \<and>
        (\<Sum>c\<in>UNIV. (pf ! 2) c) = 3 \<and>
        (\<Sum>c\<in>UNIV. calculate_letter_frequencies sorted_list_of_set {''apple'', ''siren'', ''seaty''} c) = 15 \<and>
        calculate_letter_frequencies sorted_list_of_set {''apple'', ''siren'', ''seaty''} (CHR ''e'')
          = (\<Sum>i<5. (pf ! i) (CHR ''e''))"
proof -
  let ?W = "{''apple'', ''siren'', ''seaty''}"
  have a: "lists_set sorted_list_of_set ?W" by code_simp
  have b: "five_letter_words ?W" by (simp add: five_letter_words_def)
  have c: "card ?W = 3" by simp
  from frequency_totals[OF a b] obtain pf where
    r: "calculate_positional_frequencies sorted_list_of_set ?W = Inr pf" and
    l: "length pf = 5" and
    p: "\<forall>i<5. (\<Sum>c\<in>UNIV. (pf ! i) c) = card ?W" and
    t: "(\<Sum>c\<in>UNIV. calculate_letter_frequencies sorted_list_of_set ?W c) = 5 * card ?W" and
    f: "\<forall>c. calculate_letter_frequencies sorted_list_of_set ?W c = (\<Sum>i<5. (pf ! i) c)"
    by blast
  from p c have p2: "(\<Sum>c\<in>UNIV. (pf ! 2) c) = 3" by simp
  from t c have t2: "(\<Sum>c\<in>UNIV. calculate_letter_frequencies sorted_list_of_set ?W c) = 15" by simp
  from f have f2: "calculate_letter_frequencies sorted_list_of_set ?W (CHR ''e'')
          = (\<Sum>i<5. (pf ! i) (CHR ''e''))" by (rule spec)
  show ?thesis
    by (intro exI conjI) (rule r l p2 t2 f2)+
qed

subsection \<open>Inputs on which a version departs from the specification\<close>

text \<open>
  Claim C2 says that after \<open>speed\<close> with feedback \<open>GXYXX\<close> every candidate has exactly one
  \<open>e\<close>. This version derives an upper bound for a letter only when the letter is in
  \<open>_excluded_letters\<close>; here the PRESENT \<open>e\<close> comes first, the ABSENT \<open>e\<close> is therefore not
  recorded, and a word with two \<open>e\<close> stays a candidate.
\<close>

theorem speed_feedback_keeps_two_e_word:
  "\<exists>C s'. filter_words ((init_solver {''serve'', ''seaty''} None)
                          \<lparr>feedback_history := [(''speed'', ''GXYXX'')]\<rparr>) = Inr (C, s') \<and>
          ''serve'' \<in> C \<and> count_list ''serve'' (CHR ''e'') = 2"
proof -
  let ?t = "(init_solver {''serve'', ''seaty''} None)\<lparr>feedback_history := [(''speed'', ''GXYXX'')]\<rparr>"
  have "\<not> isl (filter_words ?t)" by code_simp
  then obtain C s' where f: "filter_words ?t = Inr (C, s')"
    using Inr_projr by blast
  have "''serve'' \<in> fst (projr (filter_words ?t))" by code_simp
  with f have m: "''serve'' \<in> C" by simp
  have c: "count_list ''serve'' (CHR ''e'') = 2" by simp
  show ?thesis by (intro exI conjI) (rule f m c)+
qed

text \<open>
  Claim C4 says that no word contradicting a confirmed position is ever suggested. In
  elimination mode this version scores the whole word list, and \<open>score_word\<close> has no
  penalty for such a word: \<open>fagxy\<close> is suggested although position 0 is known to be \<open>a\<close>.
\<close>

theorem elimination_mode_suggests_contradicting_word:
  "\<exists>s'. suggest_guess sorted_list_of_set
          ((init_solver {''aaaaf'', ''aaaag'', ''fagxy'', ''abcde''} (Some {''aaaaf'', ''aaaag''}))
             \<lparr>feedback_history := [(''abcde'', ''GXXXX'')]\<rparr>) True = Inr (''fagxy'', s') \<and>
        known_letters s' ! 0 = Some (CHR ''a'') \<and> ''fagxy'' ! 0 \<noteq> CHR ''a''"
proof -
  let ?t = "(init_solver {''aaaaf'', ''aaaag'', ''fagxy'', ''abcde''} (Some {''aaaaf'', ''aaaag''}))
             \<lparr>feedback_history := [(''abcde'', ''GXXXX'')]\<rparr>"
  let ?r = "suggest_guess sorted_list_of_set ?t True"
  have "\<not> isl ?r" by code_simp
  then obtain w s' where f: "?r = Inr (w, s')"
    using Inr_projr by blast
  have "fst (projr ?r) = ''fagxy''" by code_simp
  with f have w: "w = ''fagxy''" by simp
  have "known_letters (snd (projr ?r)) ! 0 = Some (CHR ''a'')" by code_simp
  with f have k: "known_letters s' ! 0 = Some (CHR ''a'')" by simp
  have n: "''fagxy'' ! 0 \<noteq> CHR ''a''" by simp
  from f w have f': "?r = Inr (''fagxy'', s')" by simp
  show ?thesis by (intro exI conjI) (rule f' k n)+
qed

text \<open>
  Claim C7 says that ties are never broken by the iteration order of a set. The first
  version replaces the best word only on a strictly greater score, so of two words with
  equal scores it returns the one the set yields first.
\<close>

theorem terminal_suggestion_depends_on_iteration_order:
  "lists_set sorted_list_of_set {''abcde'', ''fghij''} \<and>
   lists_set (rev \<circ> sorted_list_of_set) {''abcde'', ''fghij''} \<and>
   suggest_guess_term sorted_list_of_set {''abcde'', ''fghij''} {''abcde'', ''fghij''} False
     = Inr ''abcde'' \<and>
   suggest_guess_term (rev \<circ> sorted_list_of_set) {''abcde'', ''fghij''} {''abcde'', ''fghij''} False
     = Inr ''fghij''"
  by code_simp

subsection \<open>When the filter returns\<close>

lemma greens_pass_total:
  "i + length ps \<le> length (known_letters s) \<Longrightarrow> \<exists>s' cf'. greens_pass i ps (s, cf) = Inr (s', cf')"
proof (induction i ps "(s, cf)" arbitrary: s cf rule: greens_pass.induct)
  case (1 i sc)
  then show ?case by simp
next
  case (2 i letter status rest s confirmed)
  then show ?case by (cases "status = CHR ''G''") auto
qed

lemma yellows_grays_pass_total:
  "i + length ps \<le> length (misplaced_letters s) \<Longrightarrow>
     \<exists>s' cf'. yellows_grays_pass i ps cur (s, cf) = Inr (s', cf')"
proof (induction i ps cur "(s, cf)" arbitrary: s cf rule: yellows_grays_pass.induct)
  case (1 i cur sc)
  then show ?case by simp
next
  case (2 i letter status rest cur s confirmed)
  then show ?case by auto
qed

lemma update_loop_total:
  "well_formed_history h \<Longrightarrow> length (known_letters s) = 5 \<Longrightarrow> length (misplaced_letters s) = 5 \<Longrightarrow>
     \<exists>s'. update_loop h s = Inr s'"
proof (induction h arbitrary: s)
  case Nil
  then show ?case by simp
next
  case (Cons gf h)
  obtain g f where gf: "gf = (g, f)" by (cases gf)
  from Cons.prems(1) gf have len: "length g = 5" "length f = 5" and wf: "well_formed_history h"
    by (auto simp: well_formed_history_def)
  from len Cons.prems(2) have "0 + length (zip g f) \<le> length (known_letters s)" by simp
  from greens_pass_total[OF this] obtain s1 c1 where
    a: "greens_pass 0 (zip g f) (s, \<lambda>_. 0) = Inr (s1, c1)" by blast
  note fa = greens_pass_frame[OF a]
  from len Cons.prems(3) fa have "0 + length (zip g f) \<le> length (misplaced_letters s1)" by simp
  from yellows_grays_pass_total[OF this] obtain s2 c2 where
    b: "yellows_grays_pass 0 (zip g f) (count_list g) (s1, c1) = Inr (s2, c2)" by blast
  note fb = yellows_grays_pass_frame[OF b]
  from fa fb Cons.prems have "length (known_letters s2) = 5" "length (misplaced_letters s2) = 5"
    by simp_all
  from Cons.IH[OF wf this] obtain s' where "update_loop h s2 = Inr s'" ..
  with a b show ?case by (simp add: gf)
qed

lemma update_total:
  "well_formed_history (feedback_history s) \<Longrightarrow> \<exists>s1. update_internal_state_from_history s = Inr s1"
  unfolding update_internal_state_from_history_def
  by (rule update_loop_total) (simp_all add: reset_solver_state_def)

lemma apply_known_total:
  "\<forall>w\<in>F. i + length ks \<le> length w \<Longrightarrow> \<exists>F'. apply_known i ks F = Inr F'"
proof (induction i ks F rule: apply_known.induct)
  case (1 i filtered)
  then show ?case by simp
next
  case (2 i ks filtered)
  then show ?case by simp
next
  case (3 i known_letter ks filtered)
  from "3.prems" have n: "\<not> (\<exists>word\<in>filtered. length word \<le> i)" by fastforce
  from "3.prems" have "\<forall>w\<in>{word \<in> filtered. word ! i = known_letter}. Suc i + length ks \<le> length w"
    by simp
  from "3.IH"[OF n this] n show ?case by simp
qed

lemma apply_misplaced_total:
  "\<forall>w\<in>F. i + length ms \<le> length w \<Longrightarrow> \<exists>F'. apply_misplaced i ms F = Inr F'"
proof (induction i ms F rule: apply_misplaced.induct)
  case (1 i filtered)
  then show ?case by simp
next
  case (2 i misplaced_set ms filtered)
  from "2.prems" have n: "\<not> (misplaced_set \<noteq> {} \<and> (\<exists>word\<in>filtered. length word \<le> i))"
    by fastforce
  from "2.prems" have
    "\<forall>w\<in>{word \<in> filtered. \<forall>letter\<in>misplaced_set. word ! i \<noteq> letter}. Suc i + length ms \<le> length w"
    by simp
  from "2.IH"[OF n this] n show ?case by simp
qed

lemma filter_words_total:
  assumes "well_formed_history (feedback_history s)" and "five_letter_words (possible_answers s)"
  shows "\<exists>C s'. filter_words s = Inr (C, s')"
proof -
  from update_total[OF assms(1)] obtain s1 where u: "update_internal_state_from_history s = Inr s1" ..
  note fr = update_frame[OF u]
  from assms(2) fr have "\<forall>w\<in>possible_answers s1. 0 + length (known_letters s1) \<le> length w"
    by (simp add: five_letter_words_def)
  from apply_known_total[OF this] obtain f1 where
    k: "apply_known 0 (known_letters s1) (possible_answers s1) = Inr f1" ..
  from apply_known_subset[OF k] assms(2) fr
  have "\<forall>w\<in>apply_present (present_letters s1) f1. 0 + length (misplaced_letters s1) \<le> length w"
    by (auto simp: five_letter_words_def apply_present_def)
  from apply_misplaced_total[OF this] obtain f3 where
    m: "apply_misplaced 0 (misplaced_letters s1) (apply_present (present_letters s1) f1) = Inr f3" ..
  from u k m show ?thesis
    by (simp add: filter_words_def Let_def split: prod.splits)
qed

subsection \<open>The empty word list\<close>

lemma suggest_guess_no_candidates:
  "filter_words s = Inr ({}, s') \<Longrightarrow>
     suggest_guess iter s elimination_mode = Inr (''No valid words remaining.'', s')"
  by (simp add: suggest_guess_def)

text \<open>
  Claim C8, as the code has it. With an empty word list the pool is empty; \<open>filter_words\<close>
  then returns the empty set and \<open>suggest_guess\<close> the message \<open>No valid words remaining.\<close>,
  which is the message for any pool that feedback has emptied. No separate condition for
  an empty word list exists.
\<close>

theorem empty_word_list_gives_no_words_message:
  assumes "all_words s = {}" and "possible_answers s \<subseteq> all_words s"
      and "well_formed_history (feedback_history s)"
  shows "\<exists>s'. filter_words s = Inr ({}, s') \<and>
              suggest_guess iter s elimination_mode = Inr (''No valid words remaining.'', s')"
proof -
  from assms(1,2) have e: "possible_answers s = {}" by simp
  then have "five_letter_words (possible_answers s)" by (simp add: five_letter_words_def)
  from filter_words_total[OF assms(3) this] obtain C s' where f: "filter_words s = Inr (C, s')"
    by blast
  from filter_words_shrinks(1)[OF f] e have "C = {}" by simp
  with f have f': "filter_words s = Inr ({}, s')" by simp
  from f' suggest_guess_no_candidates[OF f'] show ?thesis by blast
qed

theorem empty_word_list_gives_no_words_message_witness:
  "\<exists>s'. filter_words ((init_solver {} None)\<lparr>feedback_history := [(''crane'', ''XXXXX'')]\<rparr>)
            = Inr ({}, s') \<and>
        suggest_guess sorted_list_of_set
          ((init_solver {} None)\<lparr>feedback_history := [(''crane'', ''XXXXX'')]\<rparr>) True
            = Inr (''No valid words remaining.'', s')"
proof -
  let ?t = "(init_solver {} None)\<lparr>feedback_history := [(''crane'', ''XXXXX'')]\<rparr>"
  have a: "all_words ?t = {}" by (simp add: init_solver_def)
  have b: "possible_answers ?t \<subseteq> all_words ?t" by (simp add: init_solver_def)
  have c: "well_formed_history (feedback_history ?t)" by (simp add: well_formed_history_def)
  from empty_word_list_gives_no_words_message[OF a b c] show ?thesis .
qed

text \<open>
  The claim as written fails: an empty word list and a non-empty word list whose only word
  the feedback rules out give the same ordinary result.
\<close>

theorem empty_word_list_counterexample:
  "map_sum id fst (filter_words (init_solver {} None)) = Inr {} \<and>
   map_sum id fst (suggest_guess sorted_list_of_set (init_solver {} None) False)
     = Inr ''No valid words remaining.'' \<and>
   map_sum id fst (suggest_guess sorted_list_of_set
       ((init_solver {''siren''} None)\<lparr>feedback_history := [(''crane'', ''XXXXX'')]\<rparr>) False)
     = Inr ''No valid words remaining.''"
  by code_simp

subsection \<open>Words of the history among the suggestions\<close>

lemma suggest_loop_best:
  "suggest_loop s pf lf cur e ws (bw, bs) = Inr (bw', bs') \<Longrightarrow>
     bw' = bw \<or> (bw' \<in> set ws \<and> bw' \<notin> fst ` set (feedback_history s))"
proof (induction ws arbitrary: bw bs)
  case Nil
  then show ?case by simp
next
  case (Cons word ws)
  show ?case
  proof (cases "\<exists>hist\<in>set (feedback_history s). word = fst hist")
    case True
    with Cons.prems have "suggest_loop s pf lf cur e ws (bw, bs) = Inr (bw', bs')" by simp
    from Cons.IH[OF this] show ?thesis by auto
  next
    case False
    then have nw: "word \<notin> fst ` set (feedback_history s)" by auto
    from False Cons.prems obtain score where
      sc: "score_word s word pf lf cur e = Inr score"
      by (auto split: sum.splits)
    from False Cons.prems sc obtain b where
      b: "b = (word, Some score) \<or> b = (word, bs) \<or> b = (bw, bs)" and
      r: "suggest_loop s pf lf cur e ws b = Inr (bw', bs')"
      by (auto simp: Let_def split: if_splits)
    obtain x y where xy: "b = (x, y)" by (cases b)
    from b xy have x: "x = word \<or> x = bw" by auto
    from Cons.IH[OF r[unfolded xy]] x nw show ?thesis by auto
  qed
qed

lemma suggest_guess_cases:
  assumes "suggest_guess iter s elimination_mode = Inr (w, s')"
  obtains C where "filter_words s = Inr (C, s')" "C = {}" "w = ''No valid words remaining.''"
  | C rest where "filter_words s = Inr (C, s')" "card C = 1" "iter C = w # rest"
  | C pf bw bs where "filter_words s = Inr (C, s')" "C \<noteq> {}" "card C \<noteq> 1"
      "calculate_positional_frequencies iter C = Inr pf"
      "suggest_loop s' pf (calculate_letter_frequencies iter C) C elimination_mode
         (iter (if elimination_mode then all_words s' else C)) ([], None) = Inr (bw, bs)"
      "w = (if bw \<noteq> [] then bw else ''Could not determine best guess.'')"
proof -
  from assms obtain C where f: "filter_words s = Inr (C, s')"
    using suggest_guess_state by blast
  show ?thesis
  proof (cases "C = {}")
    case True
    with assms f that(1) show ?thesis by (simp add: suggest_guess_def)
  next
    case ne: False
    show ?thesis
    proof (cases "card C = 1")
      case True
      with assms f ne that(2)[OF f] show ?thesis
        by (auto simp: suggest_guess_def split: list.splits)
    next
      case False
      with assms f ne that(3)[OF f ne False] show ?thesis
        by (auto simp: suggest_guess_def Let_def split: sum.splits prod.splits)
    qed
  qed
qed

text \<open>
  With a history of five-letter guesses, \<open>suggest_guess\<close> of this version never returns a
  word of the history when the candidate set is not a single word: the scoring loop skips
  the guessed words. When exactly one candidate is left, that word is returned without
  looking at the history.
\<close>

lemma suggest_guess_spent:
  assumes "suggest_guess iter s elimination_mode = Inr (w, s')"
      and "filter_words s = Inr (C, s')"
      and "\<forall>(guess, feedback)\<in>set (feedback_history s). length guess = 5"
  shows "(card C \<noteq> 1 \<longrightarrow> w \<notin> fst ` set (feedback_history s)) \<and>
         (card C = 1 \<and> lists_set iter C \<longrightarrow> C = {w})"
proof -
  have five: "length g = 5" if "g \<in> fst ` set (feedback_history s)" for g
    using that assms(3) by auto
  note h = filter_words_shrinks(4)[OF assms(2)]
  from assms(1) show ?thesis
  proof (cases rule: suggest_guess_cases)
    case (1 C')
    with assms(2) have "C = {}" by simp
    moreover have "w \<notin> fst ` set (feedback_history s)"
      using five[of w] 1(3) by auto
    ultimately show ?thesis by simp
  next
    case (2 C' rest)
    with assms(2) have C: "C' = C" by simp
    have "C = {w}" if "lists_set iter C"
    proof -
      from that 2(3) C have "w \<in> C" by (auto simp: lists_set_def)
      with 2(2) C show ?thesis by (metis card_1_singletonE singletonD)
    qed
    with 2(2) C show ?thesis by simp
  next
    case (3 C' pf bw bs)
    with assms(2) have C: "C' = C" by simp
    from suggest_loop_best[OF 3(5)] h have
      "bw = [] \<or> bw \<notin> fst ` set (feedback_history s)" by auto
    moreover have "''Could not determine best guess.'' \<notin> fst ` set (feedback_history s)"
      using five[of "''Could not determine best guess.''"] by auto
    ultimately have "w \<notin> fst ` set (feedback_history s)" using 3(6) by auto
    with 3(3) C show ?thesis by simp
  qed
qed

subsection \<open>A longer history against its prefix\<close>

lemma tighter_trans: "tighter a b \<Longrightarrow> tighter b c \<Longrightarrow> tighter a c"
  unfolding tighter_def by (meson le_trans)

lemma counter_get_le: "tighter (mn, mx) (mn', mx') \<Longrightarrow> counter_get mn c \<le> counter_get mn' c"
  unfolding tighter_def counter_get_def by (fastforce split: option.splits)

lemma default5_get_le: "tighter (mn, mx) (mn', mx') \<Longrightarrow> default5_get mx' c \<le> default5_get mx c"
  unfolding tighter_def default5_get_def by (fastforce split: option.splits)

lemma default5_get_le5: "tighter (mn, mx) (mn', mx') \<Longrightarrow> default5_get mx' c \<le> 5"
  unfolding tighter_def default5_get_def by (fastforce split: option.splits)

lemma tighter_step:
  assumes "tighter (mn, mx) (mn', mx')" and "cond \<longrightarrow> cond'"
  shows "tighter (mn(l \<mapsto> max (counter_get mn l) n),
                  if cond then mx(l \<mapsto> min (default5_get mx l) n) else mx)
                 (mn'(l \<mapsto> max (counter_get mn' l) n),
                  if cond' then mx'(l \<mapsto> min (default5_get mx' l) n) else mx')"
proof -
  note a = counter_get_le[OF assms(1), of l] and b = default5_get_le[OF assms(1), of l]
    and c = default5_get_le5[OF assms(1), of l]
  have d: "mx l = Some v \<Longrightarrow> default5_get mx' l \<le> v" for v
    using b by (simp add: default5_get_def)
  show ?thesis
    using assms a b c d unfolding tighter_def
    by (auto simp: min_le_iff_disj le_max_iff_disj)
qed

lemma letters_loop_tighter:
  "tighter mm mm' \<Longrightarrow> excl \<subseteq> excl' \<Longrightarrow>
     tighter (letters_loop ks gc ng excl mm) (letters_loop ks gc ng excl' mm')"
proof (induction ks arbitrary: mm mm')
  case Nil
  then show ?case by simp
next
  case (Cons l ks)
  obtain mn mx where mm: "mm = (mn, mx)" by (cases mm)
  obtain mn' mx' where mm': "mm' = (mn', mx')" by (cases mm')
  from Cons.prems(2) have "(ng l < gc l \<and> l \<in> excl) \<longrightarrow> (ng l < gc l \<and> l \<in> excl')" by auto
  from tighter_step[OF Cons.prems(1)[unfolded mm mm'] this, of l "ng l"]
  show ?case unfolding mm mm' by (simp add: Let_def Cons.IH[OF _ Cons.prems(2)])
qed

lemma count_bounds_tighter:
  "tighter mm mm' \<Longrightarrow> excl \<subseteq> excl' \<Longrightarrow>
     tighter (count_bounds h excl mm) (count_bounds h excl' mm')"
proof (induction h arbitrary: mm mm')
  case Nil
  then show ?case by simp
next
  case (Cons gf h)
  obtain g f where gf: "gf = (g, f)" by (cases gf)
  show ?case unfolding gf
    by (simp add: Cons.IH[OF letters_loop_tighter[OF Cons.prems] Cons.prems(2)])
qed

lemma tighter_refl: "\<forall>c v. snd mm c = Some v \<longrightarrow> v \<le> 5 \<Longrightarrow> tighter mm mm"
  unfolding tighter_def by auto

lemma tighter_bounded: "tighter a b \<Longrightarrow> \<forall>c v. snd b c = Some v \<longrightarrow> v \<le> 5"
  unfolding tighter_def by blast

lemma letters_loop_tightens:
  "\<forall>c v. snd mm c = Some v \<longrightarrow> v \<le> 5 \<Longrightarrow> tighter mm (letters_loop ks gc ng excl mm)"
proof (induction ks arbitrary: mm)
  case Nil
  then show ?case by (simp add: tighter_refl)
next
  case (Cons l ks)
  obtain mn mx where mm: "mm = (mn, mx)" by (cases mm)
  let ?mm1 = "(mn(l \<mapsto> max (counter_get mn l) (ng l)),
               if ng l < gc l \<and> l \<in> excl then mx(l \<mapsto> min (default5_get mx l) (ng l)) else mx)"
  from Cons.prems mm have r: "tighter (mn, mx) (mn, mx)" by (simp add: tighter_refl)
  have s: "tighter (mn, mx) ?mm1"
  proof -
    have a: "counter_get mn l \<le> max (counter_get mn l) (ng l)" by simp
    have b: "mx l = Some v \<Longrightarrow> min (default5_get mx l) (ng l) \<le> v" for v
      by (simp add: default5_get_def min_le_iff_disj)
    have c: "min (default5_get mx l) (ng l) \<le> 5"
      using default5_get_le5[OF r, of l] by (simp add: min_le_iff_disj)
    have d: "mn l = Some m \<Longrightarrow> m \<le> max (counter_get mn l) (ng l)" for m
      by (simp add: counter_get_def le_max_iff_disj)
    from Cons.prems mm have e: "\<And>c v. mx c = Some v \<Longrightarrow> v \<le> 5" by simp
    show ?thesis unfolding tighter_def using b c d e by auto
  qed
  from tighter_bounded[OF s] have "tighter ?mm1 (letters_loop ks gc ng excl ?mm1)"
    by (rule Cons.IH)
  from tighter_trans[OF s this] show ?case unfolding mm by (simp add: Let_def)
qed

lemma count_bounds_tightens:
  "\<forall>c v. snd mm c = Some v \<longrightarrow> v \<le> 5 \<Longrightarrow> tighter mm (count_bounds h excl mm)"
proof (induction h arbitrary: mm)
  case Nil
  then show ?case by (simp add: tighter_refl)
next
  case (Cons gf h)
  obtain g f where gf: "gf = (g, f)" by (cases gf)
  let ?mm1 = "letters_loop (counter_keys g) (count_list g) (non_gray_loop (zip g f) (\<lambda>_. 0)) excl mm"
  have a: "tighter mm ?mm1" by (rule letters_loop_tightens[OF Cons.prems])
  from tighter_bounded[OF a] have "tighter ?mm1 (count_bounds h excl ?mm1)" by (rule Cons.IH)
  from tighter_trans[OF a this] show ?case unfolding gf by simp
qed

lemma count_bounds_append:
  "count_bounds (h1 @ h2) excl mm = count_bounds h2 excl (count_bounds h1 excl mm)"
proof (induction h1 arbitrary: mm)
  case Nil
  then show ?case by simp
next
  case (Cons gf h1)
  obtain g f where gf: "gf = (g, f)" by (cases gf)
  show ?case unfolding gf by (simp add: Cons.IH)
qed

lemma count_bounds_prefix_tighter:
  assumes "excl \<subseteq> excl'"
  shows "tighter (count_bounds h1 excl (Map.empty, Map.empty))
                 (count_bounds (h1 @ h2) excl' (Map.empty, Map.empty))"
proof -
  have e: "tighter (Map.empty, Map.empty) (Map.empty, Map.empty)" by (simp add: tighter_def)
  from count_bounds_tighter[OF e assms]
  have a: "tighter (count_bounds h1 excl (Map.empty, Map.empty))
                   (count_bounds h1 excl' (Map.empty, Map.empty))" .
  from tighter_bounded[OF a] count_bounds_tightens
  have "tighter (count_bounds h1 excl' (Map.empty, Map.empty))
                (count_bounds h2 excl' (count_bounds h1 excl' (Map.empty, Map.empty)))" by blast
  from tighter_trans[OF a this] show ?thesis by (simp add: count_bounds_append)
qed

lemma counts_valid_tighter:
  "tighter (mn, mx) (mn', mx') \<Longrightarrow> counts_valid mn' mx' w \<Longrightarrow> counts_valid mn mx w"
  unfolding tighter_def counts_valid_def
  by (fastforce simp: dom_def)

lemma non_gray_loop_eq:
  "non_gray_loop ps ng c =
     ng c + length (filter (\<lambda>(l, st). l = c \<and> (st = CHR ''G'' \<or> st = CHR ''Y'')) ps)"
  by (induction ps ng rule: non_gray_loop.induct) auto

lemma non_gray_zero:
  assumes "(c, CHR ''G'') \<notin> set ps" and "(c, CHR ''Y'') \<notin> set ps"
  shows "non_gray_loop ps (\<lambda>_. 0) c = 0"
proof -
  have "filter (\<lambda>(l, st). l = c \<and> (st = CHR ''G'' \<or> st = CHR ''Y'')) ps = []"
    using assms by (auto simp: filter_empty_conv)
  then show ?thesis by (simp add: non_gray_loop_eq)
qed

lemma set_counter_keys [simp]: "set (counter_keys g) = set g"
  by (simp add: counter_keys_def)

lemma letters_loop_Cons_alt:
  "letters_loop (l # ks) gc ng excl mm = letters_loop ks gc ng excl (letters_loop [l] gc ng excl mm)"
  by (cases mm) (simp add: Let_def)

lemma letters_loop_sets_max:
  "c \<in> set ks \<Longrightarrow> ng c < gc c \<Longrightarrow> c \<in> excl \<Longrightarrow> \<forall>c v. snd mm c = Some v \<longrightarrow> v \<le> 5 \<Longrightarrow>
     \<exists>v. snd (letters_loop ks gc ng excl mm) c = Some v \<and> v \<le> ng c"
proof (induction ks arbitrary: mm)
  case Nil
  then show ?case by simp
next
  case (Cons l ks)
  let ?mm1 = "letters_loop [l] gc ng excl mm"
  have t1: "tighter mm ?mm1" by (rule letters_loop_tightens[OF Cons.prems(4)])
  note b1 = tighter_bounded[OF t1]
  show ?case
  proof (cases "l = c")
    case True
    obtain mn mx where mm: "mm = (mn, mx)" by (cases mm)
    from True Cons.prems(2,3) have "snd ?mm1 c = Some (min (default5_get mx c) (ng c))"
      by (simp add: mm Let_def)
    moreover have "tighter ?mm1 (letters_loop ks gc ng excl ?mm1)"
      by (rule letters_loop_tightens[OF b1])
    ultimately obtain v' where "snd (letters_loop ks gc ng excl ?mm1) c = Some v'"
      "v' \<le> min (default5_get mx c) (ng c)"
      unfolding tighter_def by blast
    then show ?thesis by (simp add: letters_loop_Cons_alt[of l ks])
  next
    case False
    with Cons.prems(1) have "c \<in> set ks" by simp
    from Cons.IH[OF this Cons.prems(2,3) b1] show ?thesis
      by (simp add: letters_loop_Cons_alt[of l ks])
  qed
qed

lemma count_bounds_sets_max:
  "(g, f) \<in> set h \<Longrightarrow> c \<in> set g \<Longrightarrow> c \<in> excl \<Longrightarrow>
   non_gray_loop (zip g f) (\<lambda>_. 0) c < count_list g c \<Longrightarrow>
   \<forall>c v. snd mm c = Some v \<longrightarrow> v \<le> 5 \<Longrightarrow>
     \<exists>v. snd (count_bounds h excl mm) c = Some v \<and> v \<le> non_gray_loop (zip g f) (\<lambda>_. 0) c"
proof (induction h arbitrary: mm)
  case Nil
  then show ?case by simp
next
  case (Cons gf h)
  obtain g' f' where gf: "gf = (g', f')" by (cases gf)
  let ?mm1 = "letters_loop (counter_keys g') (count_list g') (non_gray_loop (zip g' f') (\<lambda>_. 0)) excl mm"
  have t1: "tighter mm ?mm1" by (rule letters_loop_tightens[OF Cons.prems(5)])
  note b1 = tighter_bounded[OF t1]
  show ?case
  proof (cases "(g, f) = (g', f')")
    case True
    then have e: "g' = g" "f' = f" by simp_all
    from Cons.prems(2) have "c \<in> set (counter_keys g)" by simp
    from letters_loop_sets_max[of c "counter_keys g" "non_gray_loop (zip g f) (\<lambda>_. 0)"
           "count_list g" excl mm, OF this Cons.prems(4,3,5)] obtain v where
      v: "snd ?mm1 c = Some v" "v \<le> non_gray_loop (zip g f) (\<lambda>_. 0) c"
      unfolding e by blast
    have "tighter ?mm1 (count_bounds h excl ?mm1)" by (rule count_bounds_tightens[OF b1])
    with v obtain v' where "snd (count_bounds h excl ?mm1) c = Some v'" "v' \<le> v"
      unfolding tighter_def by blast
    with v(2) show ?thesis unfolding gf by auto
  next
    case False
    with Cons.prems(1) gf have "(g, f) \<in> set h" by auto
    from Cons.IH[OF this Cons.prems(2,3,4) b1] show ?thesis unfolding gf by simp
  qed
qed

lemma green_consistent_marked:
  assumes "green_consistent h" and "k < 5"
      and "marked h k c (CHR ''G'')" and "marked h k d (CHR ''G'')"
  shows "c = d"
  using assms unfolding green_consistent_def marked_def by fastforce

lemma marked_in_guess:
  assumes "marked h i c st"
  obtains g f where "(g, f) \<in> set h" "c \<in> set g" "(c, st) \<in> set (zip g f)"
  using assms unfolding marked_def by (auto simp: in_set_zip) (metis nth_mem)

lemma greens_pass_history_field:
  "greens_pass i ps (s\<lparr>feedback_history := x\<rparr>, cf) =
     map_sum id (\<lambda>(s', cf'). (s'\<lparr>feedback_history := x\<rparr>, cf')) (greens_pass i ps (s, cf))"
proof (induction i ps "(s, cf)" arbitrary: s cf rule: greens_pass.induct)
  case (1 i sc)
  then show ?case by simp
next
  case (2 i letter status rest s confirmed)
  have eq: "s\<lparr>feedback_history := x\<rparr>\<lparr>known_letters := K, present_letters := P\<rparr> =
            s\<lparr>known_letters := K, present_letters := P\<rparr>\<lparr>feedback_history := x\<rparr>" for K P
    by simp
  show ?case
  proof (cases "status = CHR ''G''")
    case True
    show ?thesis
    proof (cases "i < length (known_letters s)")
      case l: True
      from "2.hyps"(1)[OF True l] True l show ?thesis
        by (simp only: greens_pass.simps eq) simp
    next
      case False
      with True show ?thesis by simp
    qed
  next
    case False
    from "2.hyps"(2)[OF False] False show ?thesis by simp
  qed
qed

lemma yellows_grays_pass_history_field:
  "yellows_grays_pass i ps cur (s\<lparr>feedback_history := x\<rparr>, cf) =
     map_sum id (\<lambda>(s', cf'). (s'\<lparr>feedback_history := x\<rparr>, cf')) (yellows_grays_pass i ps cur (s, cf))"
proof (induction i ps cur "(s, cf)" arbitrary: s cf rule: yellows_grays_pass.induct)
  case (1 i cur sc)
  then show ?case by simp
next
  case (2 i letter status rest cur s confirmed)
  have eq1: "s\<lparr>feedback_history := x\<rparr>\<lparr>misplaced_letters := M, present_letters := P\<rparr> =
             s\<lparr>misplaced_letters := M, present_letters := P\<rparr>\<lparr>feedback_history := x\<rparr>" for M P
    by simp
  have eq2: "s\<lparr>feedback_history := x\<rparr>\<lparr>excluded_letters := E\<rparr> =
             s\<lparr>excluded_letters := E\<rparr>\<lparr>feedback_history := x\<rparr>" for E
    by simp
  show ?case
  proof (cases "status = CHR ''Y''")
    case True
    show ?thesis
    proof (cases "i < length (misplaced_letters s)")
      case l: True
      from "2.hyps"(1)[OF True l] True l show ?thesis
        by (simp only: yellows_grays_pass.simps eq1) simp
    next
      case False
      with True show ?thesis by simp
    qed
  next
    case nY: False
    show ?thesis
    proof (cases "status = CHR ''X''")
      case X: True
      show ?thesis
      proof (cases "confirmed letter < cur letter")
        case c: True
        show ?thesis
        proof (cases "letter \<notin> present_letters s \<and> Some letter \<notin> set (known_letters s)")
          case True
          from "2.hyps"(2)[OF nY X c True] nY X c True show ?thesis
            by (simp only: yellows_grays_pass.simps eq2) simp
        next
          case False
          from "2.hyps"(3)[OF nY X c False] nY X c False show ?thesis by auto
        qed
      next
        case False
        from "2.hyps"(4)[OF nY X False] nY X False show ?thesis by simp
      qed
    next
      case False
      from "2.hyps"(5)[OF nY False] nY False show ?thesis by simp
    qed
  qed
qed

lemma update_loop_history_field:
  "update_loop h (s\<lparr>feedback_history := x\<rparr>) =
     map_sum id (\<lambda>s'. s'\<lparr>feedback_history := x\<rparr>) (update_loop h s)"
proof (induction h arbitrary: s)
  case Nil
  then show ?case by simp
next
  case (Cons gf h)
  obtain g f where gf: "gf = (g, f)" by (cases gf)
  show ?case unfolding gf
    by (simp add: greens_pass_history_field yellows_grays_pass_history_field Cons.IH
             split: sum.splits prod.splits)
qed

lemma update_of_prefix:
  assumes u1: "update_internal_state_from_history (s\<lparr>feedback_history := h1\<rparr>) = Inr s1"
      and u2: "update_internal_state_from_history (s\<lparr>feedback_history := h1 @ h2\<rparr>) = Inr s2"
  shows "update_loop h2 (s1\<lparr>feedback_history := h1 @ h2\<rparr>) = Inr s2"
proof -
  let ?r = "reset_solver_state s"
  have r1: "reset_solver_state (s\<lparr>feedback_history := h1\<rparr>) = ?r\<lparr>feedback_history := h1\<rparr>"
    and r2: "reset_solver_state (s\<lparr>feedback_history := h1 @ h2\<rparr>) = ?r\<lparr>feedback_history := h1 @ h2\<rparr>"
    by (simp_all add: reset_solver_state_def)
  from u1 have a: "map_sum id (\<lambda>s'. s'\<lparr>feedback_history := h1\<rparr>) (update_loop h1 ?r) = Inr s1"
    by (simp add: update_internal_state_from_history_def r1 update_loop_history_field)
  then obtain s0 where s0: "update_loop h1 ?r = Inr s0" and s1: "s1 = s0\<lparr>feedback_history := h1\<rparr>"
    by (cases "update_loop h1 ?r") auto
  from u2 have "update_loop (h1 @ h2) (?r\<lparr>feedback_history := h1 @ h2\<rparr>) = Inr s2"
    by (simp add: update_internal_state_from_history_def r2)
  then have "update_loop h2 (s0\<lparr>feedback_history := h1 @ h2\<rparr>) = Inr s2"
    by (simp add: update_loop_append update_loop_history_field[of h1] s0)
  then show ?thesis by (simp add: s1)
qed

text \<open>
  Claim C6, as the code has it. A later CORRECT letter overwrites the known letter of its
  position, so the candidate set of a longer history is a subset of the candidate set of
  a prefix when no position is marked CORRECT with two different letters (as in every
  history that honest feedback for one answer produces).
\<close>

theorem candidates_shrink_with_history:
  assumes big: "filter_words (s\<lparr>feedback_history := h1 @ h2\<rparr>) = Inr (C2, t2)"
      and small: "filter_words (s\<lparr>feedback_history := h1\<rparr>) = Inr (C1, t1)"
      and gc: "green_consistent (h1 @ h2)"
  shows "C2 \<subseteq> C1"
proof
  fix w assume w: "w \<in> C2"
  from small obtain s1 mn1 mx1 where
    u1: "update_internal_state_from_history (s\<lparr>feedback_history := h1\<rparr>) = Inr s1" and
    b1: "count_bounds h1 (excluded_letters s1) (Map.empty, Map.empty) = (mn1, mx1)" and
    m1: "\<And>w. w \<in> C1 \<longleftrightarrow>
       w \<in> possible_answers s \<and>
       (\<forall>k<5. \<forall>c. known_letters s1 ! k = Some c \<longrightarrow> w ! k = c) \<and>
       (\<forall>c\<in>present_letters s1. c \<in> set w) \<and>
       (\<forall>k<5. \<forall>c\<in>misplaced_letters s1 ! k. w ! k \<noteq> c) \<and>
       (\<forall>c\<in>active_exclusions s1. c \<notin> set w) \<and>
       counts_valid mn1 mx1 w"
    by (rule filter_words_mem) simp
  from big obtain s2 mn2 mx2 where
    u2: "update_internal_state_from_history (s\<lparr>feedback_history := h1 @ h2\<rparr>) = Inr s2" and
    b2: "count_bounds (h1 @ h2) (excluded_letters s2) (Map.empty, Map.empty) = (mn2, mx2)" and
    m2: "\<And>w. w \<in> C2 \<longleftrightarrow>
       w \<in> possible_answers s \<and>
       (\<forall>k<5. \<forall>c. known_letters s2 ! k = Some c \<longrightarrow> w ! k = c) \<and>
       (\<forall>c\<in>present_letters s2. c \<in> set w) \<and>
       (\<forall>k<5. \<forall>c\<in>misplaced_letters s2 ! k. w ! k \<noteq> c) \<and>
       (\<forall>c\<in>active_exclusions s2. c \<notin> set w) \<and>
       counts_valid mn2 mx2 w"
    by (rule filter_words_mem) simp
  note h1 = update_state_of_history[OF u1, simplified]
  note h2 = update_state_of_history[OF u2, simplified]
  note step = update_of_prefix[OF u1 u2]
  from w m2 have w2:
    "w \<in> possible_answers s"
    "\<And>k c. k < 5 \<Longrightarrow> known_letters s2 ! k = Some c \<Longrightarrow> w ! k = c"
    "\<And>c. c \<in> present_letters s2 \<Longrightarrow> c \<in> set w"
    "\<And>k c. k < 5 \<Longrightarrow> c \<in> misplaced_letters s2 ! k \<Longrightarrow> w ! k \<noteq> c"
    "counts_valid mn2 mx2 w"
    by blast+
  have excl: "excluded_letters s1 \<subseteq> excluded_letters s2"
    using update_loop_excluded[OF step] by simp
  have known: "w ! k = c" if "k < 5" "known_letters s1 ! k = Some c" for k c
  proof -
    from h1(4)[OF that] have "marked (h1 @ h2) k c (CHR ''G'')" by (simp add: marked_append)
    with gc that(1) have "\<forall>d. marked h2 k d (CHR ''G'') \<longrightarrow> d = c"
      using green_consistent_marked marked_append by blast
    with update_loop_known_kept[OF step, of k c] that h1(5)
    have "known_letters s2 ! k = Some c" by simp
    with w2(2) that(1) show ?thesis by blast
  qed
  have present: "c \<in> set w" if "c \<in> present_letters s1" for c
    using that w2(3)[of c] h1(1) h2(1) by (auto simp: marked_append)
  have misplaced: "w ! k \<noteq> c" if "k < 5" "c \<in> misplaced_letters s1 ! k" for k c
    using that w2(4)[of k c] h1(3)[of k] h2(3)[of k] by (auto simp: marked_append)
  have tight: "tighter (mn1, mx1) (mn2, mx2)"
    using count_bounds_prefix_tighter[OF excl, of h1 h2] b1 b2 by simp
  have counts: "counts_valid mn1 mx1 w"
    by (rule counts_valid_tighter[OF tight w2(5)])
  have active: "c \<notin> set w" if "c \<in> active_exclusions s1" for c
  proof
    assume cw: "c \<in> set w"
    from that have e1: "c \<in> excluded_letters s1" and p1: "c \<notin> present_letters s1"
      by (simp_all add: active_exclusions_def)
    from e1 h1(2) obtain i where "marked h1 i c (CHR ''X'')" by blast
    then obtain g f where gf: "(g, f) \<in> set h1" and cg: "c \<in> set g"
      by (rule marked_in_guess)
    have no: "(c, st) \<notin> set (zip g f)" if "st = CHR ''G'' \<or> st = CHR ''Y''" for st
    proof
      assume "(c, st) \<in> set (zip g f)"
      then obtain j where "marked [(g, f)] j c st" by (auto simp: in_zip_marked)
      with gf have "marked h1 j c st" by (auto simp: marked_def)
      with that p1 h1(1) show False by blast
    qed
    then have z: "non_gray_loop (zip g f) (\<lambda>_. 0) c = 0"
      by (intro non_gray_zero) simp_all
    from cg have pos: "0 < count_list g c" using count_list_0_iff[of g c] by auto
    from gf have gf2: "(g, f) \<in> set (h1 @ h2)" by simp
    from e1 excl have e2: "c \<in> excluded_letters s2" by blast
    have "\<exists>v. snd (count_bounds (h1 @ h2) (excluded_letters s2) (Map.empty, Map.empty)) c = Some v \<and>
              v \<le> non_gray_loop (zip g f) (\<lambda>_. 0) c"
      by (rule count_bounds_sets_max[OF gf2 cg e2]) (simp_all add: z pos)
    with b2 z have "mx2 c = Some 0" by simp
    with w2(5) cw have "count_list w c = 0"
      unfolding counts_valid_def by (auto simp: dom_def)
    with cw show False using count_list_0_iff[of w c] by auto
  qed
  from w2(1) known present misplaced active counts show "w \<in> C1"
    unfolding m1 by blast
qed

theorem candidates_shrink_with_history_witness:
  "\<exists>C2 t2 C1 t1.
     filter_words ((init_solver {''siren'', ''seaty'', ''serve''} None)
        \<lparr>feedback_history := [(''speed'', ''GXYXX'')] @ [(''siren'', ''GXXYX'')]\<rparr>) = Inr (C2, t2) \<and>
     filter_words ((init_solver {''siren'', ''seaty'', ''serve''} None)
        \<lparr>feedback_history := [(''speed'', ''GXYXX'')]\<rparr>) = Inr (C1, t1) \<and>
     green_consistent ([(''speed'', ''GXYXX'')] @ [(''siren'', ''GXXYX'')]) \<and>
     C2 \<subseteq> C1"
proof -
  let ?a = "[(''speed'', ''GXYXX'')]"
  let ?b = "[(''siren'', ''GXXYX'')]"
  let ?t = "init_solver {''siren'', ''seaty'', ''serve''} None"
  have "\<not> isl (filter_words (?t\<lparr>feedback_history := ?a @ ?b\<rparr>))" by code_simp
  then obtain C2 t2 where big: "filter_words (?t\<lparr>feedback_history := ?a @ ?b\<rparr>) = Inr (C2, t2)"
    using Inr_projr by blast
  have "\<not> isl (filter_words (?t\<lparr>feedback_history := ?a\<rparr>))" by code_simp
  then obtain C1 t1 where small: "filter_words (?t\<lparr>feedback_history := ?a\<rparr>) = Inr (C1, t1)"
    using Inr_projr by blast
  have gc: "green_consistent (?a @ ?b)"
    by (auto simp: green_consistent_def less_Suc_eq eval_nat_numeral)
  note sub = candidates_shrink_with_history[OF big small gc]
  show ?thesis by (intro exI conjI) (rule big small gc sub)+
qed

text \<open>
  The claim as written fails for a history that marks two letters CORRECT at one
  position: the second overwrites the first, and a word the shorter history rejects is a
  candidate of the longer one.
\<close>

theorem candidates_shrink_counterexample:
  "map_sum id fst (filter_words ((init_solver {''baccc''} None)
      \<lparr>feedback_history := [(''azzzz'', ''GXXXX'')] @ [(''byyyy'', ''GXXXX'')]\<rparr>)) = Inr {''baccc''} \<and>
   map_sum id fst (filter_words ((init_solver {''baccc''} None)
      \<lparr>feedback_history := [(''azzzz'', ''GXXXX'')]\<rparr>)) = Inr {}"
  by code_simp

subsection \<open>Replaying the history against a word\<close>

lemma length_mark [simp]: "length (mark ps pool) = length ps"
  by (induction ps pool rule: mark.induct) auto

lemma mark_green:
  "i < length ps \<Longrightarrow> mark ps pool ! i = CHR ''G'' \<longleftrightarrow> fst (ps ! i) = snd (ps ! i)"
proof (induction ps pool arbitrary: i rule: mark.induct)
  case (1 pool)
  then show ?case by simp
next
  case (2 a g rest pool)
  then show ?case by (cases i) auto
qed

lemma mark_yellow:
  "i < length ps \<Longrightarrow> mark ps pool ! i = CHR ''Y'' \<Longrightarrow>
     fst (ps ! i) \<noteq> snd (ps ! i) \<and> snd (ps ! i) \<in> set pool"
proof (induction ps pool arbitrary: i rule: mark.induct)
  case (1 pool)
  then show ?case by simp
next
  case (2 a g rest pool)
  show ?case
  proof (cases i)
    case 0
    with "2.prems" show ?thesis by (auto split: if_splits)
  next
    case (Suc j)
    with "2.prems" have j: "j < length rest" by simp
    show ?thesis
    proof (cases "a = g")
      case True
      with "2.prems" Suc have "mark rest pool ! j = CHR ''Y''" by simp
      from "2.IH"(1)[OF True j this] Suc show ?thesis by simp
    next
      case ne: False
      show ?thesis
      proof (cases "g \<in> set pool")
        case True
        with ne "2.prems" Suc have "mark rest (remove1 g pool) ! j = CHR ''Y''" by simp
        from "2.IH"(2)[OF ne True j this] Suc set_remove1_subset[of g pool]
        show ?thesis by auto
      next
        case False
        with ne "2.prems" Suc have "mark rest pool ! j = CHR ''Y''" by simp
        from "2.IH"(3)[OF ne False j this] Suc show ?thesis by simp
      qed
    qed
  qed
qed

lemma count_list_remove1:
  "count_list (remove1 g pool) c =
     (if g = c \<and> c \<in> set pool then count_list pool c - 1 else count_list pool c)"
proof (induction pool)
  case Nil
  then show ?case by simp
next
  case (Cons x pool)
  have "x \<in> set (x # pool)" by simp
  then have "0 < count_list (x # pool) x" using count_list_0_iff[of "x # pool" x] by auto
  with Cons show ?case using count_list_0_iff[of pool c] by auto
qed

text \<open>The number of CORRECT and PRESENT marks a letter gets.\<close>

lemma mark_non_gray_count:
  "length (filter (\<lambda>(l, st). l = c \<and> (st = CHR ''G'' \<or> st = CHR ''Y'')) (zip (map snd ps) (mark ps pool))) =
     length (filter (\<lambda>(a, g). a = g \<and> g = c) ps) +
     min (count_list pool c) (length (filter (\<lambda>(a, g). a \<noteq> g \<and> g = c) ps))"
proof (induction ps pool rule: mark.induct)
  case (1 pool)
  then show ?case by simp
next
  case (2 a g rest pool)
  show ?case
  proof (cases "a = g")
    case True
    with "2.IH"(1) show ?thesis by simp
  next
    case ne: False
    show ?thesis
    proof (cases "g \<in> set pool")
      case True
      then have pos: "0 < count_list pool g" using count_list_0_iff[of pool g] by auto
      from "2.IH"(2)[OF ne True] ne True pos show ?thesis
        by (auto simp: count_list_remove1)
    next
      case False
      then have "count_list pool g = 0" by (simp add: count_list_0_iff)
      with "2.IH"(3)[OF ne False] ne False show ?thesis by auto
    qed
  qed
qed

lemma count_list_zip_fst:
  "length xs = length ys \<Longrightarrow>
     count_list xs c = length (filter (\<lambda>(a, g). a = g \<and> a = c) (zip xs ys)) +
                       length (filter (\<lambda>(a, g). a \<noteq> g \<and> a = c) (zip xs ys))"
  by (induction xs ys rule: list_induct2) auto

lemma count_list_zip_snd:
  "length xs = length ys \<Longrightarrow>
     count_list ys c = length (filter (\<lambda>(a, g). a = g \<and> g = c) (zip xs ys)) +
                       length (filter (\<lambda>(a, g). a \<noteq> g \<and> g = c) (zip xs ys))"
  by (induction xs ys rule: list_induct2) auto

lemma count_list_unmatched:
  "count_list (unmatched answer guess) c =
     length (filter (\<lambda>(a, g). a \<noteq> g \<and> a = c) (zip answer guess))"
  unfolding unmatched_def by (induction "zip answer guess" arbitrary: answer guess) (auto simp: count_list_eq_length_filter filter_map comp_def case_prod_unfold intro: arg_cong[where f=length] filter_cong)

lemma set_unmatched: "set (unmatched answer guess) \<subseteq> set answer"
  unfolding unmatched_def by (auto dest: set_zip_leftD)

lemma replays_non_gray:
  assumes "replays w (g, f)"
  shows "non_gray_loop (zip g f) (\<lambda>_. 0) c = min (count_list w c) (count_list g c)"
proof -
  from assms have len: "length w = length g" and f: "f = mark (zip w g) (unmatched w g)"
    by (simp_all add: replays_def wordle_feedback_def)
  let ?ps = "zip w g"
  let ?G = "length (filter (\<lambda>(a, g). a = g \<and> g = c) ?ps)"
  have same: "filter (\<lambda>(a, g). a = g \<and> a = c) ?ps = filter (\<lambda>(a, g). a = g \<and> g = c) ?ps"
    by (rule filter_cong) auto
  have g: "map snd ?ps = g" using len by (simp add: map_snd_zip)
  have "non_gray_loop (zip g f) (\<lambda>_. 0) c =
          length (filter (\<lambda>(l, st). l = c \<and> (st = CHR ''G'' \<or> st = CHR ''Y''))
                    (zip (map snd ?ps) (mark ?ps (unmatched w g))))"
    by (simp add: non_gray_loop_eq f g)
  also have "\<dots> = ?G + min (count_list (unmatched w g) c)
                            (length (filter (\<lambda>(a, g). a \<noteq> g \<and> g = c) ?ps))"
    by (rule mark_non_gray_count)
  also have "\<dots> = min (count_list w c) (count_list g c)"
    using count_list_zip_fst[OF len, of c] count_list_zip_snd[OF len, of c]
    by (simp add: count_list_unmatched same)
  finally show ?thesis .
qed

lemma replays_green:
  assumes "replays w (g, f)" and "k < length g" and "k < length f" and "f ! k = CHR ''G''"
  shows "w ! k = g ! k"
proof -
  from assms(1) have len: "length w = length g" and f: "f = mark (zip w g) (unmatched w g)"
    by (simp_all add: replays_def wordle_feedback_def)
  from assms(2) len have k: "k < length (zip w g)" by simp
  from mark_green[OF k, of "unmatched w g"] assms(4) f k show ?thesis by simp
qed

lemma replays_yellow:
  assumes "replays w (g, f)" and "k < length g" and "k < length f" and "f ! k = CHR ''Y''"
  shows "w ! k \<noteq> g ! k \<and> g ! k \<in> set w"
proof -
  from assms(1) have len: "length w = length g" and f: "f = mark (zip w g) (unmatched w g)"
    by (simp_all add: replays_def wordle_feedback_def)
  from assms(2) len have k: "k < length (zip w g)" by simp
  from mark_yellow[OF k, of "unmatched w g"] assms(4) f k set_unmatched[of w g]
  show ?thesis by auto
qed

lemma letters_loop_sound:
  assumes "\<forall>c. ng c \<le> count_list w c"
      and "\<forall>c. ng c < gc c \<longrightarrow> count_list w c \<le> ng c"
      and "\<forall>c. count_list w c \<le> 5"
  shows "(\<forall>c m. fst mm c = Some m \<longrightarrow> m \<le> count_list w c) \<and>
         (\<forall>c v. snd mm c = Some v \<longrightarrow> count_list w c \<le> v) \<Longrightarrow>
         (\<forall>c m. fst (letters_loop ks gc ng excl mm) c = Some m \<longrightarrow> m \<le> count_list w c) \<and>
         (\<forall>c v. snd (letters_loop ks gc ng excl mm) c = Some v \<longrightarrow> count_list w c \<le> v)"
proof (induction ks arbitrary: mm)
  case Nil
  then show ?case by simp
next
  case (Cons l ks)
  obtain mn mx where mm: "mm = (mn, mx)" by (cases mm)
  let ?mn = "mn(l \<mapsto> max (counter_get mn l) (ng l))"
  let ?mx = "if ng l < gc l \<and> l \<in> excl then mx(l \<mapsto> min (default5_get mx l) (ng l)) else mx"
  from Cons.prems mm have mn: "\<And>c m. mn c = Some m \<Longrightarrow> m \<le> count_list w c"
    and mx: "\<And>c v. mx c = Some v \<Longrightarrow> count_list w c \<le> v" by auto
  have a: "counter_get mn l \<le> count_list w l"
    using mn[of l] by (auto simp: counter_get_def split: option.splits)
  have b: "count_list w l \<le> default5_get mx l"
    using mx[of l] assms(3) by (auto simp: default5_get_def split: option.splits)
  have "(\<forall>c m. ?mn c = Some m \<longrightarrow> m \<le> count_list w c) \<and>
        (\<forall>c v. ?mx c = Some v \<longrightarrow> count_list w c \<le> v)"
    using a b mn mx assms(1,2) by auto
  then have "(\<forall>c m. fst (?mn, ?mx) c = Some m \<longrightarrow> m \<le> count_list w c) \<and>
        (\<forall>c v. snd (?mn, ?mx) c = Some v \<longrightarrow> count_list w c \<le> v)" by simp
  from Cons.IH[OF this] show ?case unfolding mm by (simp add: Let_def)
qed

lemma sound_counts_valid:
  assumes "\<forall>c m. mn c = Some m \<longrightarrow> m \<le> count_list w c"
      and "\<forall>c v. mx c = Some v \<longrightarrow> count_list w c \<le> v"
  shows "counts_valid mn mx w"
  unfolding counts_valid_def
proof (intro conjI ballI)
  fix letter assume "letter \<in> dom mn"
  then obtain m where "mn letter = Some m" by auto
  with assms(1) show "\<not> count_list w letter < the (mn letter)" by (simp add: not_less)
next
  fix letter assume "letter \<in> dom mx"
  then obtain v where "mx letter = Some v" by auto
  with assms(2) show "\<not> (letter \<in> set w \<and> the (mx letter) < count_list w letter)"
    by (simp add: not_less)
qed

lemma count_bounds_sound:
  assumes "\<forall>gf\<in>set h. replays w gf" and "length w = 5"
  shows "(\<forall>c m. fst mm c = Some m \<longrightarrow> m \<le> count_list w c) \<and>
         (\<forall>c v. snd mm c = Some v \<longrightarrow> count_list w c \<le> v) \<Longrightarrow>
         counts_valid (fst (count_bounds h excl mm)) (snd (count_bounds h excl mm)) w"
  using assms(1)
proof (induction h arbitrary: mm)
  case Nil
  then show ?case by (simp add: sound_counts_valid)
next
  case (Cons gf h)
  obtain g f where gf: "gf = (g, f)" by (cases gf)
  from Cons.prems(2) gf have r: "replays w (g, f)" and rest: "\<forall>gf\<in>set h. replays w gf" by simp_all
  let ?ng = "non_gray_loop (zip g f) (\<lambda>_. 0)"
  have five: "\<forall>c. count_list w c \<le> 5"
    using count_le_length[of w] assms(2) by (metis)
  have "(\<forall>c m. fst (letters_loop (counter_keys g) (count_list g) ?ng excl mm) c = Some m
                 \<longrightarrow> m \<le> count_list w c) \<and>
        (\<forall>c v. snd (letters_loop (counter_keys g) (count_list g) ?ng excl mm) c = Some v
                 \<longrightarrow> count_list w c \<le> v)"
    by (rule letters_loop_sound[OF _ _ five Cons.prems(1)])
       (auto simp: replays_non_gray[OF r])
  from Cons.IH[OF this rest] show ?case unfolding gf by simp
qed

lemma markedE:
  assumes "marked h k c st"
  obtains g f where "(g, f) \<in> set h" "k < length g" "k < length f" "g ! k = c" "f ! k = st"
  using assms unfolding marked_def by auto

text \<open>
  For a pool of five-letter words, a word of the pool that replays every entry of the
  history to the stored feedback is in the candidate set: \<open>filter_words\<close> never rejects a
  word the replay accepts.
\<close>

lemma replay_consistent_kept:
  assumes f: "filter_words s = Inr (C, s')"
      and w: "w \<in> possible_answers s"
      and five: "five_letter_words (possible_answers s)"
      and r: "\<forall>gf\<in>set (feedback_history s). replays w gf"
  shows "w \<in> C"
proof -
  let ?h = "feedback_history s"
  from f obtain s1 mn mx where
    u: "update_internal_state_from_history s = Inr s1" and
    b: "count_bounds ?h (excluded_letters s1) (Map.empty, Map.empty) = (mn, mx)" and
    m: "\<And>w. w \<in> C \<longleftrightarrow>
       w \<in> possible_answers s \<and>
       (\<forall>k<5. \<forall>c. known_letters s1 ! k = Some c \<longrightarrow> w ! k = c) \<and>
       (\<forall>c\<in>present_letters s1. c \<in> set w) \<and>
       (\<forall>k<5. \<forall>c\<in>misplaced_letters s1 ! k. w ! k \<noteq> c) \<and>
       (\<forall>c\<in>active_exclusions s1. c \<notin> set w) \<and>
       counts_valid mn mx w"
    by (rule filter_words_mem) simp
  note h = update_state_of_history[OF u]
  from w five have len: "length w = 5" by (simp add: five_letter_words_def)
  have rep: "replays w (g, f)" if "(g, f) \<in> set ?h" for g f
    using r that by blast
  have green: "w ! k = c" if "marked ?h k c (CHR ''G'')" for k c
  proof -
    from that obtain g f where "(g, f) \<in> set ?h" "k < length g" "k < length f"
      "g ! k = c" "f ! k = CHR ''G''" by (rule markedE)
    with replays_green[OF rep, of g f k] show ?thesis by simp
  qed
  have yellow: "w ! k \<noteq> c \<and> c \<in> set w" if "marked ?h k c (CHR ''Y'')" for k c
  proof -
    from that obtain g f where "(g, f) \<in> set ?h" "k < length g" "k < length f"
      "g ! k = c" "f ! k = CHR ''Y''" by (rule markedE)
    with replays_yellow[OF rep, of g f k] show ?thesis by auto
  qed
  have green_in: "c \<in> set w" if "marked ?h k c (CHR ''G'')" for k c
  proof -
    from that obtain g f where gf: "(g, f) \<in> set ?h" and k: "k < length g" by (rule markedE)
    from rep[OF gf] have "length g = length w" by (simp add: replays_def)
    with k green[OF that] show ?thesis by (metis nth_mem)
  qed
  have known: "w ! k = c" if "k < 5" "known_letters s1 ! k = Some c" for k c
    using green[OF h(4)[OF that]] .
  have present: "c \<in> set w" if "c \<in> present_letters s1" for c
    using that h(1) green_in yellow by blast
  have misplaced: "w ! k \<noteq> c" if "k < 5" "c \<in> misplaced_letters s1 ! k" for k c
    using that h(3)[of k] yellow by blast
  have active: "c \<notin> set w" if "c \<in> active_exclusions s1" for c
  proof
    assume cw: "c \<in> set w"
    from that have e1: "c \<in> excluded_letters s1" and p1: "c \<notin> present_letters s1"
      by (simp_all add: active_exclusions_def)
    from e1 h(2) obtain i where "marked ?h i c (CHR ''X'')" by blast
    then obtain g f where gf: "(g, f) \<in> set ?h" and cg: "c \<in> set g"
      by (rule marked_in_guess)
    have no: "(c, st) \<notin> set (zip g f)" if "st = CHR ''G'' \<or> st = CHR ''Y''" for st
    proof
      assume "(c, st) \<in> set (zip g f)"
      then obtain j where "marked [(g, f)] j c st" by (auto simp: in_zip_marked)
      with gf have "marked ?h j c st" by (auto simp: marked_def)
      with that p1 h(1) show False by blast
    qed
    then have "non_gray_loop (zip g f) (\<lambda>_. 0) c = 0"
      by (intro non_gray_zero) simp_all
    with replays_non_gray[OF rep[OF gf], of c]
    have "count_list w c = 0 \<or> count_list g c = 0" by (auto simp: min_def split: if_splits)
    with cw cg show False using count_list_0_iff[of w c] count_list_0_iff[of g c] by auto
  qed
  have "counts_valid (fst (count_bounds ?h (excluded_letters s1) (Map.empty, Map.empty)))
                     (snd (count_bounds ?h (excluded_letters s1) (Map.empty, Map.empty))) w"
    by (rule count_bounds_sound[OF r len]) simp
  with b have counts: "counts_valid mn mx w" by simp
  from w known present misplaced active counts show ?thesis
    unfolding m by blast
qed

subsection \<open>The suggestion does not depend on the iteration order\<close>

lemma score_loop_total:
  "i + length w \<le> 5 \<Longrightarrow> length (misplaced_letters s) = 5 \<Longrightarrow> length (known_letters s) = 5 \<Longrightarrow>
   length pf = 5 \<Longrightarrow> \<exists>r. score_loop s pf lf e i w acc = Inr r"
proof (induction s pf lf e i w acc rule: score_loop.induct)
  case (1 s pf lf e i acc)
  then show ?case by simp
next
  case (2 s pf lf e i letter rest score used)
  then show ?case by (auto simp: Let_def)
qed

lemma score_word_total:
  assumes "length w = 5" "length (misplaced_letters s) = 5" "length (known_letters s) = 5"
    "length pf = 5"
  shows "\<exists>x. score_word s w pf lf C e = Inr x"
proof -
  from assms have "0 + length w \<le> 5" by simp
  from score_loop_total[OF this assms(2,3,4)] obtain r where
    "score_loop s pf lf e 0 w (0, {}) = Inr r" by blast
  then show ?thesis by (cases r) (simp add: score_word_def Let_def)
qed

lemma better_le: "better sc C a b \<Longrightarrow> sc b \<le> sc a"
  unfolding better_def by (elim disjE conjE) simp_all

lemma better_tie:
  "better sc C a b \<Longrightarrow> sc a = sc b \<Longrightarrow>
     (a \<in> C \<and> b \<notin> C) \<or> ((a \<in> C) = (b \<in> C) \<and> a < b)"
  unfolding better_def by (elim disjE conjE) simp_all

lemma better_asym:
  assumes "better sc C a b"
  shows "\<not> better sc C b a"
proof
  assume ba: "better sc C b a"
  from better_le[OF assms] better_le[OF ba] have e: "sc a = sc b" by simp
  from better_tie[OF assms e] better_tie[OF ba e[symmetric]]
  have "a < b \<and> b < a" by blast
  then show False using less_asym[of a b] by blast
qed

lemma better_trans:
  assumes ab: "better sc C a b" and bc: "better sc C b c"
  shows "better sc C a c"
proof (cases "sc c < sc a")
  case True
  then show ?thesis by (simp add: better_def)
next
  case False
  with better_le[OF ab] better_le[OF bc] have e: "sc a = sc b" "sc b = sc c" by simp_all
  from better_tie[OF ab e(1)] better_tie[OF bc e(2)]
  have "(a \<in> C \<and> c \<notin> C) \<or> ((a \<in> C) = (c \<in> C) \<and> a < b \<and> b < c)" by blast
  then have "(a \<in> C \<and> c \<notin> C) \<or> ((a \<in> C) = (c \<in> C) \<and> a < c)"
    using less_trans[of a b c] by blast
  with e show ?thesis by (simp add: better_def)
qed

lemma better_total:
  assumes "a \<noteq> b"
  shows "better sc C a b \<or> better sc C b a"
proof -
  from assms have o: "a < b \<or> b < a" by (rule linorder_neqE) simp_all
  consider "sc a < sc b" | "sc b < sc a" | "sc a = sc b" by linarith
  then show ?thesis
  proof cases
    case 1
    then show ?thesis by (simp add: better_def)
  next
    case 2
    then show ?thesis by (simp add: better_def)
  next
    case 3
    show ?thesis
    proof (cases "(a \<in> C) = (b \<in> C)")
      case True
      with 3 o show ?thesis by (auto simp add: better_def)
    next
      case False
      with 3 show ?thesis by (auto simp add: better_def)
    qed
  qed
qed

lemma is_best_unique:
  assumes "is_best sc C S m" and "is_best sc C S m'"
  shows "m = m'"
proof (rule ccontr)
  assume ne: "m \<noteq> m'"
  from assms have "m' \<in> S" "m \<in> S" by (simp_all add: is_best_def)
  with assms ne have "better sc C m m'" "better sc C m' m"
    unfolding is_best_def by metis+
  with better_asym show False by blast
qed

lemma is_best_insert:
  assumes "is_best sc C S m"
  shows "is_best sc C (insert w S) (if w \<noteq> m \<and> better sc C w m then w else m)"
proof (cases "w \<noteq> m \<and> better sc C w m")
  case True
  have "x = w \<or> better sc C w x" if "x \<in> insert w S" for x
  proof (cases "x = w \<or> x = m")
    case True
    with \<open>w \<noteq> m \<and> better sc C w m\<close> show ?thesis by blast
  next
    case False
    with that assms have "better sc C m x" unfolding is_best_def by blast
    with True better_trans show ?thesis by blast
  qed
  then have "is_best sc C (insert w S) w" unfolding is_best_def by blast
  with True show ?thesis by presburger
next
  case False
  have "x = m \<or> better sc C m x" if "x \<in> insert w S" for x
  proof (cases "x = w")
    case True
    with False better_total[of w m sc C] show ?thesis by blast
  next
    case False
    with that assms show ?thesis unfolding is_best_def by blast
  qed
  moreover from assms have "m \<in> insert w S" by (simp add: is_best_def)
  ultimately have "is_best sc C (insert w S) m" unfolding is_best_def by blast
  with False show ?thesis by presburger
qed

text \<open>One step of the loop on a word that was not guessed, with a best word at hand.\<close>

lemma suggest_loop_step:
  assumes g: "\<not> (\<exists>hist\<in>set (feedback_history s). word = fst hist)"
      and sw: "score_word s word pf lf C e = Inr (sc word)"
  shows "suggest_loop s pf lf C e (word # rest) (bw, Some (sc bw)) =
           suggest_loop s pf lf C e rest
             (if word \<noteq> bw \<and> better sc C word bw then word else bw,
              Some (sc (if word \<noteq> bw \<and> better sc C word bw then word else bw)))"
proof -
  consider (gt) "sc bw < sc word" | (lt) "sc word < sc bw" | (eq) "sc word = sc bw"
    by linarith
  then show ?thesis
  proof cases
    case gt
    then have "word \<noteq> bw \<and> better sc C word bw" by (auto simp: better_def)
    with gt g sw show ?thesis by (simp add: Let_def exceeds_def)
  next
    case lt
    then have "\<not> better sc C word bw" by (auto simp: better_def)
    with lt g sw show ?thesis by (simp add: Let_def exceeds_def)
  next
    case eq
    show ?thesis
    proof (cases "word \<in> C \<and> bw \<notin> C")
      case True
      with eq have "word \<noteq> bw \<and> better sc C word bw" by (auto simp: better_def)
      with True eq g sw show ?thesis by (simp add: Let_def exceeds_def)
    next
      case nf: False
      show ?thesis
      proof (cases "(word \<in> C) = (bw \<in> C) \<and> word < bw")
        case True
        with eq have "word \<noteq> bw \<and> better sc C word bw" by (auto simp: better_def)
        with True nf eq g sw show ?thesis by (simp add: Let_def exceeds_def)
      next
        case False
        with nf eq have nb: "\<not> better sc C word bw" by (auto simp: better_def)
        from False nf have c: "\<not> (word \<in> C \<and> bw \<notin> C)"
          "\<not> ((word \<in> C) = (bw \<in> C) \<and> word < bw)" by simp_all
        from g sw eq show ?thesis
          by (simp add: Let_def exceeds_def nb c del: not_less)
      qed
    qed
  qed
qed

lemma suggest_loop_max:
  assumes "\<forall>w\<in>set ws. score_word s w pf lf C e = Inr (sc w)"
      and "is_best sc C S bw"
  shows "\<exists>m. suggest_loop s pf lf C e ws (bw, Some (sc bw)) = Inr (m, Some (sc m)) \<and>
             is_best sc C (S \<union> (set ws - fst ` set (feedback_history s))) m"
  using assms
proof (induction ws arbitrary: S bw)
  case Nil
  then show ?case by simp
next
  case (Cons word ws)
  let ?G = "fst ` set (feedback_history s)"
  show ?case
  proof (cases "\<exists>hist\<in>set (feedback_history s). word = fst hist")
    case True
    then have g: "word \<in> ?G" by auto
    from Cons.prems(1) have "\<forall>w\<in>set ws. score_word s w pf lf C e = Inr (sc w)" by simp
    from Cons.IH[OF this Cons.prems(2)] obtain m where
      "suggest_loop s pf lf C e ws (bw, Some (sc bw)) = Inr (m, Some (sc m))"
      "is_best sc C (S \<union> (set ws - ?G)) m" by blast
    moreover from g have "S \<union> (set (word # ws) - ?G) = S \<union> (set ws - ?G)" by auto
    ultimately show ?thesis using True by simp
  next
    case False
    then have g: "word \<notin> ?G" by auto
    from Cons.prems(1) have sw: "score_word s word pf lf C e = Inr (sc word)"
      and rest: "\<forall>w\<in>set ws. score_word s w pf lf C e = Inr (sc w)" by simp_all
    let ?b = "if word \<noteq> bw \<and> better sc C word bw then word else bw"
    have best: "is_best sc C (insert word S) ?b" by (rule is_best_insert[OF Cons.prems(2)])
    from Cons.IH[OF rest best] obtain m where
      m: "suggest_loop s pf lf C e ws (?b, Some (sc ?b)) = Inr (m, Some (sc m))"
         "is_best sc C (insert word S \<union> (set ws - ?G)) m" by blast
    have "suggest_loop s pf lf C e (word # ws) (bw, Some (sc bw)) =
            suggest_loop s pf lf C e ws (?b, Some (sc ?b))"
      by (rule suggest_loop_step[where sc=sc, OF False sw])
    moreover from g have "S \<union> (set (word # ws) - ?G) = insert word S \<union> (set ws - ?G)" by auto
    ultimately show ?thesis using m by simp
  qed
qed

lemma suggest_loop_from_start:
  assumes "\<forall>w\<in>set ws. score_word s w pf lf C e = Inr (sc w)"
  shows "(set ws - fst ` set (feedback_history s) = {} \<and>
          suggest_loop s pf lf C e ws ([], None) = Inr ([], None)) \<or>
         (\<exists>m. suggest_loop s pf lf C e ws ([], None) = Inr (m, Some (sc m)) \<and>
              is_best sc C (set ws - fst ` set (feedback_history s)) m)"
  using assms
proof (induction ws)
  case Nil
  then show ?case by simp
next
  case (Cons word ws)
  let ?G = "fst ` set (feedback_history s)"
  show ?case
  proof (cases "\<exists>hist\<in>set (feedback_history s). word = fst hist")
    case True
    then have g: "word \<in> ?G" by auto
    then have e: "set (word # ws) - ?G = set ws - ?G" by auto
    from Cons.prems have "\<forall>w\<in>set ws. score_word s w pf lf C e = Inr (sc w)" by simp
    from Cons.IH[OF this] True show ?thesis unfolding e by simp
  next
    case False
    then have g: "word \<notin> ?G" by auto
    from Cons.prems have sw: "score_word s word pf lf C e = Inr (sc word)"
      and rest: "\<forall>w\<in>set ws. score_word s w pf lf C e = Inr (sc w)" by simp_all
    have b: "is_best sc C {word} word" by (simp add: is_best_def)
    from suggest_loop_max[OF rest b] obtain m where
      m: "suggest_loop s pf lf C e ws (word, Some (sc word)) = Inr (m, Some (sc m))"
         "is_best sc C ({word} \<union> (set ws - ?G)) m" by blast
    from False sw have "suggest_loop s pf lf C e (word # ws) ([], None) =
        suggest_loop s pf lf C e ws (word, Some (sc word))"
      by (simp add: Let_def exceeds_def)
    moreover from g have "set (word # ws) - ?G = {word} \<union> (set ws - ?G)" by auto
    ultimately show ?thesis using m by simp
  qed
qed

lemma suggest_loop_order_independent:
  assumes "\<forall>w\<in>set ws. \<exists>x. score_word s w pf lf C e = Inr x" and "set ws' = set ws"
  shows "suggest_loop s pf lf C e ws' ([], None) = suggest_loop s pf lf C e ws ([], None)"
proof -
  define sc where "sc w = projr (score_word s w pf lf C e)" for w
  from assms(1) have a: "\<forall>w\<in>set ws. score_word s w pf lf C e = Inr (sc w)"
    unfolding sc_def by auto
  with assms(2) have a': "\<forall>w\<in>set ws'. score_word s w pf lf C e = Inr (sc w)" by simp
  let ?G = "fst ` set (feedback_history s)"
  let ?S = "set ws - ?G"
  from assms(2) have S: "set ws' - ?G = ?S" by simp
  note r = suggest_loop_from_start[OF a] and r' = suggest_loop_from_start[OF a', unfolded S]
  show ?thesis
  proof (cases "?S = {}")
    case True
    with r r' show ?thesis by (auto simp: is_best_def)
  next
    case False
    with r obtain m where m: "suggest_loop s pf lf C e ws ([], None) = Inr (m, Some (sc m))"
      "is_best sc C ?S m" by blast
    from False r' obtain m' where m': "suggest_loop s pf lf C e ws' ([], None) = Inr (m', Some (sc m'))"
      "is_best sc C ?S m'" by blast
    from is_best_unique[OF m(2) m'(2)] m(1) m'(1) show ?thesis by simp
  qed
qed

lemma frequencies_order_independent:
  assumes a: "lists_set iter1 S" and b: "lists_set iter2 S" and five: "five_letter_words S"
  shows "calculate_positional_frequencies iter1 S = calculate_positional_frequencies iter2 S"
    and "calculate_letter_frequencies iter1 S = calculate_letter_frequencies iter2 S"
    and "\<exists>pf. calculate_positional_frequencies iter1 S = Inr pf \<and> length pf = 5"
proof -
  have res: "\<exists>pf. count_words (iter S) (replicate 5 (\<lambda>_. 0)) = Inr pf \<and> length pf = 5 \<and>
               (\<forall>k<5. \<forall>c. (pf ! k) c = card ({w. k < length w \<and> w ! k = c} \<inter> S))"
    if l: "lists_set iter S" for iter
  proof -
    from l have set: "set (iter S) = S" and d: "distinct (iter S)" by (simp_all add: lists_set_def)
    from five set have "\<forall>w\<in>set (iter S). length w \<le> length (replicate 5 (\<lambda>_::char. 0::nat))"
      by (simp add: five_letter_words_def)
    from count_words_result[OF this] obtain pf where
      r: "count_words (iter S) (replicate 5 (\<lambda>_. 0)) = Inr pf" and len: "length pf = 5" and
      v: "\<And>k c. k < 5 \<Longrightarrow> (pf ! k) c = length (filter (\<lambda>w. k < length w \<and> w ! k = c) (iter S))"
      by auto
    from v d set have "\<forall>k<5. \<forall>c. (pf ! k) c = card ({w. k < length w \<and> w ! k = c} \<inter> S)"
      by (simp add: distinct_length_filter)
    with r len show ?thesis by blast
  qed
  from res[OF a] obtain pf1 where
    1: "count_words (iter1 S) (replicate 5 (\<lambda>_. 0)) = Inr pf1" "length pf1 = 5"
       "\<forall>k<5. \<forall>c. (pf1 ! k) c = card ({w. k < length w \<and> w ! k = c} \<inter> S)" by blast
  from res[OF b] obtain pf2 where
    2: "count_words (iter2 S) (replicate 5 (\<lambda>_. 0)) = Inr pf2" "length pf2 = 5"
       "\<forall>k<5. \<forall>c. (pf2 ! k) c = card ({w. k < length w \<and> w ! k = c} \<inter> S)" by blast
  have "pf1 = pf2"
  proof (rule nth_equalityI)
    show "length pf1 = length pf2" using 1(2) 2(2) by simp
    fix k assume "k < length pf1"
    with 1(2) have k: "k < 5" by simp
    show "pf1 ! k = pf2 ! k" using 1(3) 2(3) k by (intro ext) simp
  qed
  with 1 2 show "calculate_positional_frequencies iter1 S = calculate_positional_frequencies iter2 S"
    by (simp add: calculate_positional_frequencies_def)
  from 1 show "\<exists>pf. calculate_positional_frequencies iter1 S = Inr pf \<and> length pf = 5"
    by (simp add: calculate_positional_frequencies_def)
  have lf: "count_list (concat (iter S)) c = (\<Sum>i<5. card ({w. i < length w \<and> w ! i = c} \<inter> S))"
    if l: "lists_set iter S" for iter c
  proof -
    from l have set: "set (iter S) = S" and d: "distinct (iter S)" by (simp_all add: lists_set_def)
    from five set have "\<forall>w\<in>set (iter S). length w = 5" by (simp add: five_letter_words_def)
    from count_list_concat_positions[OF this, of c] d set show ?thesis
      by (simp add: distinct_length_filter)
  qed
  show "calculate_letter_frequencies iter1 S = calculate_letter_frequencies iter2 S"
    unfolding calculate_letter_frequencies_def using lf[OF a] lf[OF b] by (intro ext) simp
qed

lemma lists_singleton:
  assumes "lists_set iter C" and "card C = 1"
  shows "\<exists>w. C = {w} \<and> iter C = [w]"
proof -
  from assms(2) obtain w where C: "C = {w}" by (auto simp: card_1_singleton_iff)
  from assms(1) C have s: "set (iter C) = {w}" and d: "distinct (iter C)"
    by (simp_all add: lists_set_def)
  from d s have "length (iter C) = 1" using distinct_card[of "iter C"] by simp
  with s have "iter C = [w]" by (cases "iter C") auto
  with C show ?thesis by blast
qed

text \<open>
  The answer of \<open>suggest_guess\<close> of this version does not depend on the order in which
  Python walks through its sets: ties in the score go to a candidate, then to the smaller
  word.
\<close>

lemma suggest_guess_order_independent:
  assumes i1: "\<forall>S. finite S \<longrightarrow> lists_set iter1 S" and i2: "\<forall>S. finite S \<longrightarrow> lists_set iter2 S"
      and fin: "finite (all_words s)" "finite (possible_answers s)"
      and five: "five_letter_words (all_words s)" "five_letter_words (possible_answers s)"
  shows "suggest_guess iter1 s e = suggest_guess iter2 s e"
proof (cases "filter_words s")
  case (Inl err)
  then show ?thesis by (simp add: suggest_guess_def)
next
  case (Inr r)
  obtain C s1 where r: "r = (C, s1)" by (cases r)
  with Inr have f: "filter_words s = Inr (C, s1)" by simp
  from f obtain t where u: "update_internal_state_from_history s = Inr t"
    and s1: "s1 = t\<lparr>possible_answers := C\<rparr>" by (rule filter_words_mem)
  from update_frame[OF u] s1 have len: "length (known_letters s1) = 5"
    "length (misplaced_letters s1) = 5" and aw: "all_words s1 = all_words s" by simp_all
  from filter_words_shrinks(1)[OF f] fin(2) five(2) have C: "finite C" "five_letter_words C"
    by (auto simp: five_letter_words_def intro: finite_subset)
  from i1 i2 C(1) have lC: "lists_set iter1 C" "lists_set iter2 C" by simp_all
  show ?thesis
  proof (cases "C = {}")
    case True
    with f show ?thesis by (simp add: suggest_guess_def)
  next
    case ne: False
    show ?thesis
    proof (cases "card C = 1")
      case True
      from lists_singleton[OF lC(1) True] lists_singleton[OF lC(2) True]
      have "iter1 C = iter2 C" by auto
      with f ne True show ?thesis by (simp add: suggest_guess_def)
    next
      case False
      let ?W = "if e then all_words s1 else C"
      from fin(1) five(1) C aw have W: "finite ?W" "five_letter_words ?W" by auto
      from i1 i2 W(1) have lW: "lists_set iter1 ?W" "lists_set iter2 ?W" by blast+
      note fr = frequencies_order_independent[OF lC C(2)]
      from fr(3) obtain pf where pf: "calculate_positional_frequencies iter1 C = Inr pf"
        and lpf: "length pf = 5" by blast
      from fr(1) pf have pf2: "calculate_positional_frequencies iter2 C = Inr pf" by simp
      let ?lf = "calculate_letter_frequencies iter1 C"
      have tot: "\<forall>w\<in>set (iter2 ?W). \<exists>x. score_word s1 w pf ?lf C e = Inr x"
      proof
        fix w assume "w \<in> set (iter2 ?W)"
        with lW(2) W(2) have "length w = 5" by (auto simp: lists_set_def five_letter_words_def)
        from score_word_total[OF this len(2,1) lpf] show "\<exists>x. score_word s1 w pf ?lf C e = Inr x" .
      qed
      from lW have "set (iter1 ?W) = set (iter2 ?W)" by (simp add: lists_set_def)
      from suggest_loop_order_independent[OF tot this]
      have loop: "suggest_loop s1 pf ?lf C e (iter1 ?W) ([], None) =
                  suggest_loop s1 pf ?lf C e (iter2 ?W) ([], None)" .
      from f ne False pf pf2 fr(2) loop show ?thesis
        by (simp add: suggest_guess_def Let_def)
    qed
  qed
qed

subsection \<open>The latest version on the inputs of claims C2 and C4\<close>

lemma replicate5: "replicate 5 x = [x, x, x, x, x]"
  by (simp add: eval_nat_numeral)

lemma speed_state_exp:
  assumes "feedback_history s = [(''speed'', ''GXYXX'')]"
  shows "update_internal_state_from_history_exp s =
           Inr (s\<lparr>known_letters := [Some (CHR ''s''), None, None, None, None],
                  misplaced_letters := [{}, {}, {CHR ''e''}, {}, {}],
                  present_letters := {CHR ''e'', CHR ''s''},
                  excluded_letters := {CHR ''d'', CHR ''p''}\<rparr>)"
  using assms
  by (simp add: update_internal_state_from_history_exp_def reset_solver_state_def replicate5)

lemma speed_bounds_exp:
  "count_bounds_exp [(''speed'', ''GXYXX'')] (Map.empty, Map.empty) = (mn, exact) \<Longrightarrow>
     exact (CHR ''e'') = Some 1 \<and> exact (CHR ''p'') = Some 0 \<and> exact (CHR ''d'') = Some 0"
  by (auto simp: counter_keys_def counter_get_def Let_def)

text \<open>
  The latest version on the input of claim C2: whatever the pool, every candidate after
  \<open>speed\<close> with \<open>GXYXX\<close> starts with \<open>s\<close>, has no \<open>p\<close> and no \<open>d\<close>, has no \<open>e\<close> at position 2 and
  has exactly one \<open>e\<close>.
\<close>

lemma speed_candidates_exp:
  assumes h: "feedback_history s = [(''speed'', ''GXYXX'')]"
  shows "\<exists>C s'. filter_words_exp s = Inr (C, s') \<and>
           (\<forall>w\<in>C. w \<in> possible_answers s \<and> w ! 0 = CHR ''s'' \<and> CHR ''p'' \<notin> set w \<and>
                   CHR ''d'' \<notin> set w \<and> w ! 2 \<noteq> CHR ''e'' \<and> count_list w (CHR ''e'') = 1)"
proof -
  obtain mn exact where
    b: "count_bounds_exp [(''speed'', ''GXYXX'')] (Map.empty, Map.empty) = (mn, exact)"
    by (cases "count_bounds_exp [(''speed'', ''GXYXX'')] (Map.empty, Map.empty)")
  note e = speed_bounds_exp[OF b]
  then have e1: "CHR ''e'' \<in> dom exact" "the (exact (CHR ''e'')) = 1" by auto
  let ?s1 = "s\<lparr>known_letters := [Some (CHR ''s''), None, None, None, None],
                misplaced_letters := [{}, {}, {CHR ''e''}, {}, {}],
                present_letters := {CHR ''e'', CHR ''s''},
                excluded_letters := {CHR ''d'', CHR ''p''}\<rparr>"
  let ?F = "apply_exclusions (active_exclusions ?s1)
              (apply_misplaced_exp 0 (misplaced_letters ?s1)
                 (apply_present (present_letters ?s1)
                    (apply_known_exp 0 (known_letters ?s1) (possible_answers ?s1))))"
  let ?C = "{word \<in> ?F. counts_valid_exp mn exact word}"
  have f: "filter_words_exp s = Inr (?C, ?s1\<lparr>possible_answers := ?C\<rparr>)"
    unfolding filter_words_exp_def speed_state_exp[OF h]
    by (simp add: h b Let_def del: count_bounds_exp.simps)
  have "w \<in> possible_answers s \<and> w ! 0 = CHR ''s'' \<and> CHR ''p'' \<notin> set w \<and>
        CHR ''d'' \<notin> set w \<and> w ! 2 \<noteq> CHR ''e'' \<and> count_list w (CHR ''e'') = 1"
    if "w \<in> ?C" for w
  proof -
    from that have F: "w \<in> ?F" and cv: "counts_valid_exp mn exact w" by simp_all
    from cv e1 have "count_list w (CHR ''e'') = 1"
      unfolding counts_valid_exp_def by force
    moreover from F have "w \<in> possible_answers s \<and> w ! 0 = CHR ''s'' \<and> CHR ''p'' \<notin> set w \<and>
        CHR ''d'' \<notin> set w \<and> w ! 2 \<noteq> CHR ''e''"
      by (simp add: apply_exclusions_def active_exclusions_def apply_present_def
            eval_nat_numeral)
    ultimately show ?thesis by simp
  qed
  with f show ?thesis by blast
qed

lemma yellows_grays_pass_exp_frame:
  "yellows_grays_pass_exp i ps (s, c) = Inr (s', c') \<Longrightarrow>
     possible_answers s' = possible_answers s \<and> all_words s' = all_words s \<and>
     feedback_history s' = feedback_history s"
proof (induction i ps "(s, c)" arbitrary: s c rule: yellows_grays_pass_exp.induct)
  case (1 i sc)
  then show ?case by simp
next
  case (2 i letter status rest s confirmed)
  then show ?case by (auto split: if_splits)
qed

lemma update_loop_exp_frame:
  "update_loop_exp h s = Inr s' \<Longrightarrow>
     possible_answers s' = possible_answers s \<and> all_words s' = all_words s \<and>
     feedback_history s' = feedback_history s"
proof (induction h arbitrary: s)
  case Nil
  then show ?case by simp
next
  case (Cons gf h)
  obtain g f where gf: "gf = (g, f)" by (cases gf)
  from Cons.prems gf obtain s1 c1 s2 c2 where
    g: "greens_pass 0 (zip g f) (s, \<lambda>_. 0) = Inr (s1, c1)" and
    y: "yellows_grays_pass_exp 0 (zip g f) (s1, c1) = Inr (s2, c2)" and
    r: "update_loop_exp h s2 = Inr s'"
    by (auto split: sum.splits)
  from greens_pass_frame[OF g] yellows_grays_pass_exp_frame[OF y] Cons.IH[OF r]
  show ?case by simp
qed

lemma apply_known_exp_mem:
  "w \<in> apply_known_exp i ks F \<longleftrightarrow>
     w \<in> F \<and> (\<forall>j<length ks. \<forall>c. ks ! j = Some c \<longrightarrow> length w = 5 \<and> w ! (i + j) = c)"
proof (induction i ks F rule: apply_known_exp.induct)
  case (1 i filtered)
  then show ?case by simp
next
  case (2 i ks filtered)
  then show ?case by (auto simp: nth_Cons' All_less_Suc2)
next
  case (3 i known_letter ks filtered)
  then show ?case by (auto simp: nth_Cons' All_less_Suc2)
qed

lemma apply_misplaced_exp_subset: "apply_misplaced_exp i ms F \<subseteq> F"
  by (induction i ms F rule: apply_misplaced_exp.induct) auto

lemma filter_words_exp_candidate:
  assumes "filter_words_exp s = Inr (C, s')" and "w \<in> C"
  shows "w \<in> possible_answers s"
    and "\<forall>c\<in>set w. c \<notin> active_exclusions s'"
    and "\<forall>i<length (known_letters s'). \<forall>c. known_letters s' ! i = Some c \<longrightarrow> w ! i = c"
    and "all_words s' = all_words s" and "feedback_history s' = feedback_history s"
proof -
  from assms(1) obtain s1 where
    u: "update_internal_state_from_history_exp s = Inr s1"
    by (auto simp: filter_words_exp_def split: sum.splits)
  from u have fr: "possible_answers s1 = possible_answers s" "all_words s1 = all_words s"
    "feedback_history s1 = feedback_history s"
    using update_loop_exp_frame[of "feedback_history s" "reset_solver_state s" s1]
    by (simp_all add: update_internal_state_from_history_exp_def reset_solver_state_def)
  let ?f1 = "apply_known_exp 0 (known_letters s1) (possible_answers s1)"
  let ?f3 = "apply_misplaced_exp 0 (misplaced_letters s1) (apply_present (present_letters s1) ?f1)"
  from assms(1) u have C: "C \<subseteq> apply_exclusions (active_exclusions s1) ?f3"
    and s': "s' = s1\<lparr>possible_answers := C\<rparr>"
    by (auto simp: filter_words_exp_def Let_def split: prod.splits)
  from C assms(2) have e: "w \<in> apply_exclusions (active_exclusions s1) ?f3" by blast
  then have "w \<in> ?f3" by (simp add: apply_exclusions_def)
  with apply_misplaced_exp_subset have "w \<in> apply_present (present_letters s1) ?f1" by blast
  then have k: "w \<in> ?f1" by (simp add: apply_present_def)
  from k fr show "w \<in> possible_answers s" by (simp add: apply_known_exp_mem)
  from e s' show "\<forall>c\<in>set w. c \<notin> active_exclusions s'"
    by (auto simp: apply_exclusions_def active_exclusions_def)
  from k s' show "\<forall>i<length (known_letters s'). \<forall>c. known_letters s' ! i = Some c \<longrightarrow> w ! i = c"
    by (simp add: apply_known_exp_mem)
  from fr s' show "all_words s' = all_words s" "feedback_history s' = feedback_history s"
    by simp_all
qed

lemma score_loop_exp_Some:
  "score_loop_exp s pf lf e i w acc = Inr (Some r) \<Longrightarrow>
     \<forall>j<length w. w ! j \<notin> active_exclusions s \<and>
        (\<forall>c. known_letters s ! (i + j) = Some c \<longrightarrow> w ! j = c)"
proof (induction s pf lf e i w acc rule: score_loop_exp.induct)
  case (1 s pf lf e i acc)
  then show ?case by simp
next
  case (2 s pf lf e i letter rest score used)
  from "2.prems" have a: "letter \<notin> active_exclusions s"
    by (auto simp: active_exclusions_def split: if_splits)
  from "2.prems" have k: "\<forall>c. known_letters s ! i = Some c \<longrightarrow> letter = c"
    by (auto split: if_splits)
  from "2.prems" "2.IH" have rec: "\<forall>j<length rest. rest ! j \<notin> active_exclusions s \<and>
        (\<forall>c. known_letters s ! (Suc i + j) = Some c \<longrightarrow> rest ! j = c)"
    by (simp add: Let_def split: if_splits)
  show ?case
  proof (intro allI impI)
    fix j assume "j < length (letter # rest)"
    then show "(letter # rest) ! j \<notin> active_exclusions s \<and>
        (\<forall>c. known_letters s ! (i + j) = Some c \<longrightarrow> (letter # rest) ! j = c)"
      using a k rec by (cases j) auto
  qed
qed

lemma score_word_exp_Some:
  assumes "score_word_exp s w pf lf C e = Inr (Some x)"
  shows "(\<forall>c\<in>set w. c \<notin> active_exclusions s) \<and>
         (\<forall>i<length w. \<forall>c. known_letters s ! i = Some c \<longrightarrow> w ! i = c)"
proof -
  from assms obtain r where "score_loop_exp s pf lf e 0 w (0, {}) = Inr (Some r)"
    by (auto simp: score_word_exp_def Let_def split: sum.splits option.splits if_splits)
  from score_loop_exp_Some[OF this] show ?thesis
    by (auto simp: in_set_conv_nth)
qed

lemma set_heappushpop: "set (heappushpop heap item) \<subseteq> set (item # heap)"
  unfolding heappushpop_def by (rule set_remove1_subset)

lemma heap_loop_words:
  "heap_loop s pf lf C e K ws heap = Inr heap' \<Longrightarrow>
     \<forall>it\<in>set heap'. it \<in> set heap \<or>
        (\<exists>x. score_word_exp s (snd (snd it)) pf lf C e = Inr (Some x))"
proof (induction ws arbitrary: heap)
  case Nil
  then show ?case by simp
next
  case (Cons word ws)
  show ?case
  proof (cases "score_word_exp s word pf lf C e")
    case (Inl err)
    with Cons.prems show ?thesis by simp
  next
    case (Inr r)
    show ?thesis
    proof (cases r)
      case None
      with Inr Cons.prems have "heap_loop s pf lf C e K ws heap = Inr heap'" by simp
      from Cons.IH[OF this] show ?thesis .
    next
      case (Some score)
      let ?item = "(- score, word \<notin> C, word)"
      let ?h = "if int (length heap) < K then ?item # heap else heappushpop heap ?item"
      from Some Inr Cons.prems have "heap_loop s pf lf C e K ws ?h = Inr heap'"
        by (simp add: Let_def)
      from Cons.IH[OF this] have
        r: "\<forall>it\<in>set heap'. it \<in> set ?h \<or> (\<exists>x. score_word_exp s (snd (snd it)) pf lf C e = Inr (Some x))" .
      have h: "set ?h \<subseteq> insert ?item (set heap)" using set_heappushpop[of heap ?item] by auto
      show ?thesis
      proof
        fix it assume "it \<in> set heap'"
        with r have "it \<in> set ?h \<or> (\<exists>x. score_word_exp s (snd (snd it)) pf lf C e = Inr (Some x))"
          by blast
        then show "it \<in> set heap \<or> (\<exists>x. score_word_exp s (snd (snd it)) pf lf C e = Inr (Some x))"
        proof
          assume "it \<in> set ?h"
          with h have "it = ?item \<or> it \<in> set heap" by blast
          with Some Inr show ?thesis by auto
        qed blast
      qed
    qed
  qed
qed

lemma set_slice_to: "set (slice_to n xs) \<subseteq> set xs"
  unfolding slice_to_def by (auto dest: in_set_takeD)

text \<open>
  The latest version on claim C4: for every mode and every \<open>num_suggestions\<close>, a word it
  suggests has no actively excluded letter and no letter other than the known one at a
  known position (the only other thing it returns is the message for an empty candidate
  set).
\<close>

lemma suggestions_never_disqualified_exp:
  assumes r: "suggest_guess_exp iter s e K = Inr (ws, s')"
      and it: "\<forall>S. finite S \<longrightarrow> lists_set iter S" and fin: "finite (possible_answers s)"
      and w: "w \<in> set ws" and n: "w \<noteq> ''No valid words remaining.''"
  shows "(\<forall>c\<in>set w. c \<notin> active_exclusions s') \<and>
         (\<forall>i<length w. \<forall>c. i < length (known_letters s') \<and> known_letters s' ! i = Some c
                          \<longrightarrow> w ! i = c)"
proof -
  from r obtain C where f: "filter_words_exp s = Inr (C, s')"
    by (auto simp: suggest_guess_exp_def Let_def split: sum.splits prod.splits if_splits list.splits)
  note cand = filter_words_exp_candidate[OF f]
  have candidate: ?thesis if "w \<in> C"
    using cand(2,3)[OF that] by simp
  have C: "finite C" using cand(1) fin by (auto intro: finite_subset)
  show ?thesis
  proof (cases "C = {}")
    case True
    with r f w n show ?thesis by (auto simp: suggest_guess_exp_def)
  next
    case ne: False
    show ?thesis
    proof (cases "card C = 1")
      case True
      from it C have "lists_set iter C" by simp
      with r f ne True w have "w \<in> C"
        by (auto simp: suggest_guess_exp_def lists_set_def split: list.splits)
      then show ?thesis by (rule candidate)
    next
      case False
      from r f ne False obtain pf heap where
        h: "heap_loop s' pf (calculate_letter_frequencies iter C) C e K
              (iter ((if e then all_words s' else C) - fst ` set (feedback_history s'))) [] = Inr heap"
        and res: "ws = (if map (\<lambda>(neg_score, not_possible, word). word) (sort heap) = []
                        then slice_to K (sorted_list_of_set C)
                        else map (\<lambda>(neg_score, not_possible, word). word) (sort heap))"
        by (auto simp: suggest_guess_exp_def Let_def split: sum.splits if_splits)
      show ?thesis
      proof (cases "map (\<lambda>(neg_score, not_possible, word). word) (sort heap) = []")
        case True
        with res w set_slice_to[of K "sorted_list_of_set C"] C have "w \<in> C" by auto
        then show ?thesis by (rule candidate)
      next
        case False
        with res w obtain it' where i: "it' \<in> set heap" and wi: "w = snd (snd it')"
          by (auto simp: case_prod_unfold)
        from heap_loop_words[OF h] i obtain x where
          "score_word_exp s' (snd (snd it')) pf (calculate_letter_frequencies iter C) C e = Inr (Some x)"
          by auto
        from score_word_exp_Some[OF this] wi show ?thesis by simp
      qed
    qed
  qed
qed

subsection \<open>Candidates of well-behaved histories replay the history\<close>

lemma greens_pass_known_present:
  "greens_pass i ps (s, cf) = Inr (s', cf') \<Longrightarrow> known_present s \<Longrightarrow> known_present s'"
proof (induction i ps "(s, cf)" arbitrary: s cf rule: greens_pass.induct)
  case (1 i sc)
  then show ?case by simp
next
  case (2 i letter status rest s confirmed)
  show ?case
  proof (cases "status = CHR ''G''")
    case True
    with "2.prems" have i: "i < length (known_letters s)" by (auto split: if_splits)
    let ?s = "s\<lparr>known_letters := (known_letters s)[i := Some letter],
                present_letters := insert letter (present_letters s)\<rparr>"
    from True i "2.prems" have
      r: "greens_pass (Suc i) rest (?s, confirmed(letter := confirmed letter + 1)) = Inr (s', cf')"
      by simp
    have "known_present ?s"
      using "2.prems"(2) set_update_subset_insert[of "known_letters s" i "Some letter"]
      unfolding known_present_def by auto
    from "2.hyps"(1)[OF True i r this] show ?thesis .
  next
    case False
    with "2.prems" have "greens_pass (Suc i) rest (s, confirmed) = Inr (s', cf')" by simp
    from "2.hyps"(2)[OF False this "2.prems"(2)] show ?thesis .
  qed
qed

lemma greens_pass_confirmed:
  "greens_pass i ps (s, cf) = Inr (s', cf') \<Longrightarrow> (c, CHR ''G'') \<notin> set ps \<Longrightarrow> cf' c = cf c"
proof (induction i ps "(s, cf)" arbitrary: s cf rule: greens_pass.induct)
  case (1 i sc)
  then show ?case by simp
next
  case (2 i letter status rest s confirmed)
  then show ?case by (auto split: if_splits)
qed

lemma yellows_grays_pass_excludes:
  "yellows_grays_pass i ps cur (s, cf) = Inr (s', cf') \<Longrightarrow> (c, CHR ''X'') \<in> set ps \<Longrightarrow>
   c \<notin> present_letters s' \<Longrightarrow> Some c \<notin> set (known_letters s) \<Longrightarrow> cf c < cur c \<Longrightarrow>
     c \<in> excluded_letters s'"
proof (induction i ps cur "(s, cf)" arbitrary: s cf rule: yellows_grays_pass.induct)
  case (1 i cur sc)
  then show ?case by simp
next
  case (2 i letter status rest cur s confirmed)
  note pres = yellows_grays_pass_present[OF "2.prems"(1)]
  from pres "2.prems"(3) have np: "c \<notin> present_letters s" by blast
  show ?case
  proof (cases "status = CHR ''Y''")
    case True
    with "2.prems"(1) have i: "i < length (misplaced_letters s)" by (auto split: if_splits)
    from True pres "2.prems"(3) have ne: "letter \<noteq> c" by auto
    let ?s = "s\<lparr>misplaced_letters :=
                  (misplaced_letters s)[i := insert letter (misplaced_letters s ! i)],
                present_letters := insert letter (present_letters s)\<rparr>"
    from True i "2.prems"(1) have
      r: "yellows_grays_pass (Suc i) rest cur (?s, confirmed(letter := confirmed letter + 1)) = Inr (s', cf')"
      by simp
    from True "2.prems"(2) have m: "(c, CHR ''X'') \<in> set rest" by auto
    have k: "Some c \<notin> set (known_letters ?s)" using "2.prems"(4) by simp
    have cf: "(confirmed(letter := confirmed letter + 1)) c < cur c" using ne "2.prems"(5) by simp
    from "2.hyps"(1)[OF True i r m "2.prems"(3) k cf] show ?thesis .
  next
    case nY: False
    show ?thesis
    proof (cases "status = CHR ''X''")
      case X: True
      show ?thesis
      proof (cases "confirmed letter < cur letter")
        case c: True
        show ?thesis
        proof (cases "letter \<notin> present_letters s \<and> Some letter \<notin> set (known_letters s)")
          case True
          let ?s = "s\<lparr>excluded_letters := insert letter (excluded_letters s)\<rparr>"
          from "2.prems"(1) nY X c True have
            r: "yellows_grays_pass (Suc i) rest cur (?s, confirmed) = Inr (s', cf')" by simp
          show ?thesis
          proof (cases "letter = c")
            case l: True
            from yellows_grays_pass_excluded[OF r] l show ?thesis by auto
          next
            case False
            with "2.prems"(2) have m: "(c, CHR ''X'') \<in> set rest" by auto
            have k: "Some c \<notin> set (known_letters ?s)" using "2.prems"(4) by simp
            from "2.hyps"(2)[OF nY X c True r m "2.prems"(3) k "2.prems"(5)] show ?thesis .
          qed
        next
          case False
          with "2.prems"(1) nY X c have
            r: "yellows_grays_pass (Suc i) rest cur (s, confirmed) = Inr (s', cf')" by auto
          from False np "2.prems"(4) have "letter \<noteq> c" by auto
          with "2.prems"(2) have m: "(c, CHR ''X'') \<in> set rest" by auto
          from "2.hyps"(3)[OF nY X c False r m "2.prems"(3,4,5)] show ?thesis .
        qed
      next
        case False
        with "2.prems"(1) nY X have
          r: "yellows_grays_pass (Suc i) rest cur (s, confirmed) = Inr (s', cf')" by simp
        from False "2.prems"(5) have "letter \<noteq> c" by auto
        with "2.prems"(2) have m: "(c, CHR ''X'') \<in> set rest" by auto
        from "2.hyps"(4)[OF nY X False r m "2.prems"(3,4,5)] show ?thesis .
      qed
    next
      case False
      with "2.prems"(1) nY have
        r: "yellows_grays_pass (Suc i) rest cur (s, confirmed) = Inr (s', cf')" by simp
      from False "2.prems"(2) have m: "(c, CHR ''X'') \<in> set rest" by auto
      from "2.hyps"(5)[OF nY False r m "2.prems"(3,4,5)] show ?thesis .
    qed
  qed
qed

lemma update_step_excludes:
  assumes g: "greens_pass 0 (zip g f) (s, \<lambda>_. 0) = Inr (s1, c1)"
      and y: "yellows_grays_pass 0 (zip g f) (count_list g) (s1, c1) = Inr (s2, c2)"
      and kp: "known_present s"
      and x: "marked [(g, f)] i c (CHR ''X'')"
      and np: "c \<notin> present_letters s2"
  shows "c \<in> excluded_letters s2" and "known_present s2"
proof -
  note kp1 = greens_pass_known_present[OF g kp]
  note yf = yellows_grays_pass_frame[OF y]
  note yp = yellows_grays_pass_present[OF y]
  from kp1 yf yp show kp2: "known_present s2" unfolding known_present_def by auto
  from x have m: "(c, CHR ''X'') \<in> set (zip g f)" by (auto simp: in_zip_marked)
  then have cg: "c \<in> set g" by (auto dest: set_zip_leftD)
  from np yp have np1: "c \<notin> present_letters s1" by blast
  with greens_pass_present[OF g] have "(c, CHR ''G'') \<notin> set (zip g f)" by blast
  from greens_pass_confirmed[OF g this] have c0: "c1 c = 0" by simp
  from cg have pos: "0 < count_list g c" using count_list_0_iff[of g c] by auto
  from kp1 np1 have k: "Some c \<notin> set (known_letters s1)" unfolding known_present_def by blast
  from c0 pos have lt: "c1 c < count_list g c" by simp
  from yellows_grays_pass_excludes[OF y m np k lt] show "c \<in> excluded_letters s2" .
qed

lemma update_step_known_present:
  assumes g: "greens_pass 0 (zip g f) (s, \<lambda>_. 0) = Inr (s1, c1)"
      and y: "yellows_grays_pass 0 (zip g f) (count_list g) (s1, c1) = Inr (s2, c2)"
      and kp: "known_present s"
  shows "known_present s2"
proof -
  note kp1 = greens_pass_known_present[OF g kp]
  note yf = yellows_grays_pass_frame[OF y]
  note yp = yellows_grays_pass_present[OF y]
  from kp1 yf yp show "known_present s2" unfolding known_present_def by auto
qed

lemma update_loop_excludes:
  "update_loop h s = Inr s' \<Longrightarrow> known_present s \<Longrightarrow> n < length h \<Longrightarrow>
   marked [h ! n] i c (CHR ''X'') \<Longrightarrow>
   (\<forall>j. \<not> marked (take (Suc n) h) j c (CHR ''G'') \<and> \<not> marked (take (Suc n) h) j c (CHR ''Y'')) \<Longrightarrow>
   c \<notin> present_letters s \<Longrightarrow> c \<in> excluded_letters s'"
proof (induction h arbitrary: s n)
  case Nil
  then show ?case by simp
next
  case (Cons gf h)
  obtain g f where gf: "gf = (g, f)" by (cases gf)
  from Cons.prems(1)[unfolded gf] obtain s1 c1 s2 c2 where
    a: "greens_pass 0 (zip g f) (s, \<lambda>_. 0) = Inr (s1, c1)" and
    b: "yellows_grays_pass 0 (zip g f) (count_list g) (s1, c1) = Inr (s2, c2)" and
    c: "update_loop h s2 = Inr s'"
    by (rule update_loop_cases)
  note kp2 = update_step_known_present[OF a b Cons.prems(2)]
  from Cons.prems(5) have no: "\<not> marked [(g, f)] j c (CHR ''G'')" "\<not> marked [(g, f)] j c (CHR ''Y'')" for j
    unfolding gf by (auto simp: marked_Cons)
  with update_step(1)[OF a b] Cons.prems(6) have np2: "c \<notin> present_letters s2" by blast
  show ?case
  proof (cases n)
    case 0
    with Cons.prems(4) gf have "marked [(g, f)] i c (CHR ''X'')" by simp
    from update_step_excludes(1)[OF a b Cons.prems(2) this np2] update_loop_excluded[OF c]
    show ?thesis by blast
  next
    case (Suc m)
    with Cons.prems(3) have m: "m < length h" by simp
    from Suc Cons.prems(4) have x: "marked [h ! m] i c (CHR ''X'')" by simp
    from Suc Cons.prems(5) have
      "\<forall>j. \<not> marked (take (Suc m) h) j c (CHR ''G'') \<and> \<not> marked (take (Suc m) h) j c (CHR ''Y'')"
      unfolding gf by (auto simp: marked_Cons)
    from Cons.IH[OF c kp2 m x this np2] show ?thesis .
  qed
qed

lemma update_loop_known_some:
  "update_loop h s = Inr s' \<Longrightarrow> k < length (known_letters s) \<Longrightarrow>
   known_letters s ! k \<noteq> None \<or> (\<exists>c. marked h k c (CHR ''G'')) \<Longrightarrow> known_letters s' ! k \<noteq> None"
proof (induction h arbitrary: s)
  case Nil
  then show ?case by simp
next
  case (Cons gf h)
  obtain g f where gf: "gf = (g, f)" by (cases gf)
  from Cons.prems(1)[unfolded gf] obtain s1 c1 s2 c2 where
    a: "greens_pass 0 (zip g f) (s, \<lambda>_. 0) = Inr (s1, c1)" and
    b: "yellows_grays_pass 0 (zip g f) (count_list g) (s1, c1) = Inr (s2, c2)" and
    c: "update_loop h s2 = Inr s'"
    by (rule update_loop_cases)
  from update_step(6)[OF a b] Cons.prems(2) have k: "k < length (known_letters s2)" by simp
  from update_step(4)[OF a b Cons.prems(2)] Cons.prems(3)
  have "known_letters s2 ! k \<noteq> None \<or> (\<exists>c. marked h k c (CHR ''G''))"
    unfolding gf by (auto simp: marked_Cons)
  from Cons.IH[OF c k this] show ?case .
qed

lemma letters_loop_sets_min:
  "c \<in> set ks \<Longrightarrow> \<forall>c v. snd mm c = Some v \<longrightarrow> v \<le> 5 \<Longrightarrow>
     \<exists>m. fst (letters_loop ks gc ng excl mm) c = Some m \<and> ng c \<le> m"
proof (induction ks arbitrary: mm)
  case Nil
  then show ?case by simp
next
  case (Cons l ks)
  let ?mm1 = "letters_loop [l] gc ng excl mm"
  have t1: "tighter mm ?mm1" by (rule letters_loop_tightens[OF Cons.prems(2)])
  note b1 = tighter_bounded[OF t1]
  show ?case
  proof (cases "l = c")
    case True
    obtain mn mx where mm: "mm = (mn, mx)" by (cases mm)
    from True have "fst ?mm1 c = Some (max (counter_get mn c) (ng c))"
      by (simp add: mm Let_def)
    moreover have "tighter ?mm1 (letters_loop ks gc ng excl ?mm1)"
      by (rule letters_loop_tightens[OF b1])
    ultimately obtain m' where "fst (letters_loop ks gc ng excl ?mm1) c = Some m'"
      "max (counter_get mn c) (ng c) \<le> m'"
      unfolding tighter_def by blast
    then show ?thesis by (simp add: letters_loop_Cons_alt[of l ks])
  next
    case False
    with Cons.prems(1) have "c \<in> set ks" by simp
    from Cons.IH[OF this b1] show ?thesis
      by (simp add: letters_loop_Cons_alt[of l ks])
  qed
qed

lemma count_bounds_sets_min:
  "(g, f) \<in> set h \<Longrightarrow> c \<in> set g \<Longrightarrow> \<forall>c v. snd mm c = Some v \<longrightarrow> v \<le> 5 \<Longrightarrow>
     \<exists>m. fst (count_bounds h excl mm) c = Some m \<and> non_gray_loop (zip g f) (\<lambda>_. 0) c \<le> m"
proof (induction h arbitrary: mm)
  case Nil
  then show ?case by simp
next
  case (Cons gf h)
  obtain g' f' where gf: "gf = (g', f')" by (cases gf)
  let ?mm1 = "letters_loop (counter_keys g') (count_list g') (non_gray_loop (zip g' f') (\<lambda>_. 0)) excl mm"
  have t1: "tighter mm ?mm1" by (rule letters_loop_tightens[OF Cons.prems(3)])
  note b1 = tighter_bounded[OF t1]
  show ?case
  proof (cases "(g, f) = (g', f')")
    case True
    then have e: "g' = g" "f' = f" by simp_all
    from Cons.prems(2) have "c \<in> set (counter_keys g)" by simp
    from letters_loop_sets_min[of c "counter_keys g" mm "count_list g"
           "non_gray_loop (zip g f) (\<lambda>_. 0)" excl, OF this Cons.prems(3)] obtain m where
      m: "fst ?mm1 c = Some m" "non_gray_loop (zip g f) (\<lambda>_. 0) c \<le> m"
      unfolding e by blast
    have "tighter ?mm1 (count_bounds h excl ?mm1)" by (rule count_bounds_tightens[OF b1])
    with m obtain m' where "fst (count_bounds h excl ?mm1) c = Some m'" "m \<le> m'"
      unfolding tighter_def by blast
    with m(2) show ?thesis unfolding gf by auto
  next
    case False
    with Cons.prems(1) gf have "(g, f) \<in> set h" by auto
    from Cons.IH[OF this Cons.prems(2) b1] show ?thesis unfolding gf by simp
  qed
qed

lemma mark_reproduces:
  assumes "length w = length g" and "length g = length f"
  shows "(\<forall>i<length g. (f ! i = CHR ''G'') = (w ! i = g ! i)) \<Longrightarrow>
         (\<forall>i<length g. f ! i = CHR ''X'' \<longrightarrow> g ! i \<notin> set pool) \<Longrightarrow>
         (\<forall>i<length g. f ! i = CHR ''G'' \<or> f ! i = CHR ''Y'' \<or> f ! i = CHR ''X'') \<Longrightarrow>
         (\<forall>c. length (filter (\<lambda>(l, st). l = c \<and> st = CHR ''Y'') (zip g f)) \<le> count_list pool c) \<Longrightarrow>
         mark (zip w g) pool = f"
  using assms
proof (induction w g f arbitrary: pool rule: list_induct3)
  case Nil
  then show ?case by simp
next
  case (Cons a w b g st f)
  from Cons.prems(1) have g0: "(st = CHR ''G'') = (a = b)"
    and gs: "\<forall>i<length g. (f ! i = CHR ''G'') = (w ! i = g ! i)"
    by (auto simp: All_less_Suc2)
  from Cons.prems(2) have x0: "st = CHR ''X'' \<longrightarrow> b \<notin> set pool"
    and xs: "\<forall>i<length g. f ! i = CHR ''X'' \<longrightarrow> g ! i \<notin> set pool"
    by (auto simp: All_less_Suc2)
  from Cons.prems(3) have v0: "st = CHR ''G'' \<or> st = CHR ''Y'' \<or> st = CHR ''X''"
    and vs: "\<forall>i<length g. f ! i = CHR ''G'' \<or> f ! i = CHR ''Y'' \<or> f ! i = CHR ''X''"
    by (auto simp: All_less_Suc2)
  note cnt = Cons.prems(4)
  show ?case
  proof (cases "st = CHR ''G''")
    case True
    from cnt True have "\<forall>c. length (filter (\<lambda>(l, st). l = c \<and> st = CHR ''Y'') (zip g f)) \<le> count_list pool c"
      by simp
    from Cons.IH[OF gs xs vs this] True g0 show ?thesis by simp
  next
    case nG: False
    with g0 have ne: "a \<noteq> b" by simp
    show ?thesis
    proof (cases "st = CHR ''Y''")
      case True
      from cnt[rule_format, of b] True have "0 < count_list pool b" by simp
      then have inp: "b \<in> set pool" using count_list_0_iff[of pool b] by auto
      have c': "\<forall>c. length (filter (\<lambda>(l, st). l = c \<and> st = CHR ''Y'') (zip g f)) \<le> count_list (remove1 b pool) c"
      proof
        fix c
        from cnt[rule_format, of c] True inp show
          "length (filter (\<lambda>(l, st). l = c \<and> st = CHR ''Y'') (zip g f)) \<le> count_list (remove1 b pool) c"
          by (auto simp: count_list_remove1)
      qed
      from xs set_remove1_subset[of b pool]
      have xs': "\<forall>i<length g. f ! i = CHR ''X'' \<longrightarrow> g ! i \<notin> set (remove1 b pool)" by blast
      from Cons.IH[OF gs xs' vs c'] True ne inp show ?thesis by simp
    next
      case False
      with nG v0 have X: "st = CHR ''X''" by simp
      with x0 have nin: "b \<notin> set pool" by simp
      from cnt X have "\<forall>c. length (filter (\<lambda>(l, st). l = c \<and> st = CHR ''Y'') (zip g f)) \<le> count_list pool c"
        by simp
      from Cons.IH[OF gs xs vs this] X ne nin show ?thesis by simp
    qed
  qed
qed

lemma confirmed_split:
  "length (filter (\<lambda>(l, st). l = c \<and> (st = CHR ''G'' \<or> st = CHR ''Y'')) ps) =
     length (filter (\<lambda>(l, st). l = c \<and> st = CHR ''G'') ps) +
     length (filter (\<lambda>(l, st). l = c \<and> st = CHR ''Y'') ps)"
  by (induction ps) auto

lemma green_marks_matched:
  assumes "length w = length g" and "length g = length f"
  shows "(\<forall>i<length g. (f ! i = CHR ''G'') = (w ! i = g ! i)) \<Longrightarrow>
         length (filter (\<lambda>(l, st). l = c \<and> st = CHR ''G'') (zip g f)) =
         length (filter (\<lambda>(a, g). a = g \<and> a = c) (zip w g))"
  using assms
proof (induction w g f rule: list_induct3)
  case Nil
  then show ?case by simp
next
  case (Cons a w b g st f)
  from Cons.prems have g0: "(st = CHR ''G'') = (a = b)"
    and gs: "\<forall>i<length g. (f ! i = CHR ''G'') = (w ! i = g ! i)"
    by (auto simp: All_less_Suc2)
  from Cons.IH[OF gs] g0 show ?case by auto
qed

lemma reset_known_present: "known_present (reset_solver_state s)"
  by (simp add: known_present_def reset_solver_state_def)

lemma candidate_replays:
  assumes f: "filter_words s = Inr (C, s')"
      and five: "five_letter_words (possible_answers s)"
      and wf: "well_formed_history (feedback_history s)"
      and vf: "valid_feedback (feedback_history s)"
      and gc: "green_consistent (feedback_history s)"
      and um: "absent_unmixed (feedback_history s)"
      and wC: "w \<in> C"
      and gf: "(g, fb) \<in> set (feedback_history s)"
  shows "replays w (g, fb)"
proof -
  let ?h = "feedback_history s"
  let ?ng = "non_gray_loop (zip g fb) (\<lambda>_. 0)"
  from f obtain s1 mn mx where
    u: "update_internal_state_from_history s = Inr s1" and
    b: "count_bounds ?h (excluded_letters s1) (Map.empty, Map.empty) = (mn, mx)" and
    m: "\<And>w. w \<in> C \<longleftrightarrow>
       w \<in> possible_answers s \<and>
       (\<forall>k<5. \<forall>c. known_letters s1 ! k = Some c \<longrightarrow> w ! k = c) \<and>
       (\<forall>c\<in>present_letters s1. c \<in> set w) \<and>
       (\<forall>k<5. \<forall>c\<in>misplaced_letters s1 ! k. w ! k \<noteq> c) \<and>
       (\<forall>c\<in>active_exclusions s1. c \<notin> set w) \<and>
       counts_valid mn mx w"
    by (rule filter_words_mem) simp
  note hst = update_state_of_history[OF u]
  from u have ul: "update_loop ?h (reset_solver_state s) = Inr s1"
    by (simp add: update_internal_state_from_history_def)
  from wC m have w: "w \<in> possible_answers s"
    and known: "\<And>k c. k < 5 \<Longrightarrow> known_letters s1 ! k = Some c \<Longrightarrow> w ! k = c"
    and misplaced: "\<And>k c. k < 5 \<Longrightarrow> c \<in> misplaced_letters s1 ! k \<Longrightarrow> w ! k \<noteq> c"
    and counts: "counts_valid mn mx w"
    by blast+
  from w five have len: "length w = 5" by (simp add: five_letter_words_def)
  from gf wf have lg: "length g = 5" and lf: "length fb = 5"
    by (auto simp: well_formed_history_def)
  from gf obtain n where n: "n < length ?h" and hn: "?h ! n = (g, fb)"
    by (auto simp: in_set_conv_nth)
  have mk: "marked ?h i (g ! i) (fb ! i)" if "i < 5" for i
    unfolding marked_def using gf that lg lf by (intro bexI[of _ "(g, fb)"]) auto
  have green: "w ! i = g ! i" if "i < 5" "fb ! i = CHR ''G''" for i
  proof -
    from mk[OF that(1)] that(2) have mg: "marked ?h i (g ! i) (CHR ''G'')" by simp
    have "known_letters s1 ! i \<noteq> None"
      by (rule update_loop_known_some[OF ul]) (use that(1) mg in \<open>auto simp: reset_solver_state_def\<close>)
    then obtain d where d: "known_letters s1 ! i = Some d" by auto
    from hst(4)[OF that(1) d] have "marked ?h i d (CHR ''G'')" .
    from green_consistent_marked[OF gc that(1) this mg] have "d = g ! i" .
    with known[OF that(1) d] show ?thesis by simp
  qed
  have yellow: "w ! i \<noteq> g ! i" if "i < 5" "fb ! i = CHR ''Y''" for i
  proof -
    from mk[OF that(1)] that(2) have "marked ?h i (g ! i) (CHR ''Y'')" by simp
    with hst(3)[OF that(1)] have "g ! i \<in> misplaced_letters s1 ! i" by simp
    from misplaced[OF that(1) this] show ?thesis .
  qed
  have bounded: "\<forall>c v. snd (Map.empty :: char \<rightharpoonup> nat, Map.empty :: char \<rightharpoonup> nat) c = Some v \<longrightarrow> v \<le> 5"
    by simp
  have gray: "g ! i \<notin> set w" if "i < 5" "fb ! i = CHR ''X''" for i
  proof
    let ?c = "g ! i"
    assume cw: "?c \<in> set w"
    from that lg lf hn have x: "marked [?h ! n] i ?c (CHR ''X'')" by (simp add: marked_def)
    with um n have no: "\<not> marked (take (Suc n) ?h) j ?c (CHR ''G'')"
      "\<not> marked (take (Suc n) ?h) j ?c (CHR ''Y'')" for j
      unfolding absent_unmixed_def by blast+
    have ex: "?c \<in> excluded_letters s1"
      by (rule update_loop_excludes[OF ul reset_known_present n x])
         (use no in \<open>auto simp: reset_solver_state_def\<close>)
    from n hn have "(g, fb) \<in> set (take (Suc n) ?h)"
      by (metis in_set_conv_nth length_take lessI min_less_iff_conj nth_take)
    then have sub: "marked [(g, fb)] j c st \<Longrightarrow> marked (take (Suc n) ?h) j c st" for j c st
      unfolding marked_def by auto
    have z: "?ng ?c = 0"
    proof (rule non_gray_zero)
      show "(?c, CHR ''G'') \<notin> set (zip g fb)" using no(1) sub by (auto simp: in_zip_marked)
      show "(?c, CHR ''Y'') \<notin> set (zip g fb)" using no(2) sub by (auto simp: in_zip_marked)
    qed
    from that(1) lg have cg: "?c \<in> set g" by simp
    then have pos: "0 < count_list g ?c" using count_list_0_iff[of g ?c] by auto
    have "\<exists>v. snd (count_bounds ?h (excluded_letters s1) (Map.empty, Map.empty)) ?c = Some v \<and>
              v \<le> ?ng ?c"
      by (rule count_bounds_sets_max[OF gf cg ex]) (simp_all add: z pos)
    with b z have "mx ?c = Some 0" by simp
    with counts cw have "count_list w ?c = 0"
      unfolding counts_valid_def by (auto simp: dom_def)
    with cw show False using count_list_0_iff[of w ?c] by auto
  qed
  have minc: "?ng c \<le> count_list w c" for c
  proof (cases "c \<in> set g")
    case True
    have "\<exists>m. fst (count_bounds ?h (excluded_letters s1) (Map.empty, Map.empty)) c = Some m \<and>
              ?ng c \<le> m"
      by (rule count_bounds_sets_min[OF gf True]) simp
    with b obtain m' where m': "mn c = Some m'" "?ng c \<le> m'" by auto
    with counts have "\<not> count_list w c < m'" unfolding counts_valid_def by (auto simp: dom_def)
    with m'(2) show ?thesis by simp
  next
    case False
    then have "(c, st) \<notin> set (zip g fb)" for st by (auto dest: set_zip_leftD)
    then have "?ng c = 0" by (intro non_gray_zero) simp_all
    then show ?thesis by simp
  qed
  have valid: "fb ! i = CHR ''G'' \<or> fb ! i = CHR ''Y'' \<or> fb ! i = CHR ''X''" if "i < 5" for i
  proof -
    from that lf have "fb ! i \<in> set fb" by simp
    with vf gf show ?thesis unfolding valid_feedback_def by auto
  qed
  have lwg: "length w = length g" using len lg by simp
  have lgf: "length g = length fb" using lg lf by simp
  have c1: "\<forall>i<length g. (fb ! i = CHR ''G'') = (w ! i = g ! i)"
  proof (intro allI impI)
    fix i assume "i < length g"
    with lg have i: "i < 5" by simp
    show "(fb ! i = CHR ''G'') = (w ! i = g ! i)"
    proof
      assume "fb ! i = CHR ''G''"
      with green[OF i] show "w ! i = g ! i" .
    next
      assume e: "w ! i = g ! i"
      from i len have "w ! i \<in> set w" by simp
      with e gray[OF i] yellow[OF i] valid[OF i] show "fb ! i = CHR ''G''" by auto
    qed
  qed
  have c2: "\<forall>i<length g. fb ! i = CHR ''X'' \<longrightarrow> g ! i \<notin> set (unmatched w g)"
    using gray lg set_unmatched[of w g] by auto
  have c3: "\<forall>i<length g. fb ! i = CHR ''G'' \<or> fb ! i = CHR ''Y'' \<or> fb ! i = CHR ''X''"
    using valid lg by simp
  have c4: "\<forall>c. length (filter (\<lambda>(l, st). l = c \<and> st = CHR ''Y'') (zip g fb))
                  \<le> count_list (unmatched w g) c"
  proof
    fix c
    have "?ng c = length (filter (\<lambda>(l, st). l = c \<and> st = CHR ''G'') (zip g fb)) +
                  length (filter (\<lambda>(l, st). l = c \<and> st = CHR ''Y'') (zip g fb))"
      by (simp add: non_gray_loop_eq confirmed_split)
    moreover note green_marks_matched[OF lwg lgf c1, of c] count_list_zip_fst[OF lwg, of c]
      count_list_unmatched[of w g c] minc[of c]
    ultimately show "length (filter (\<lambda>(l, st). l = c \<and> st = CHR ''Y'') (zip g fb))
                  \<le> count_list (unmatched w g) c" by simp
  qed
  from mark_reproduces[OF lwg lgf c1 c2 c3 c4] lwg show ?thesis
    by (simp add: replays_def wordle_feedback_def)
qed

text \<open>
  Claim C1, as the code has it. For a pool of five-letter words and a word \<open>w\<close> of the
  pool: if replaying every entry of the history against \<open>w\<close> reproduces the stored
  feedback, \<open>w\<close> is a candidate, whatever the history. The converse, and with it the
  equivalence of the claim, holds for a history of five-letter guesses with five feedback
  symbols each in which no position is marked CORRECT with two different letters and no
  letter is marked ABSENT in an entry when that entry or an earlier one marks it CORRECT
  or PRESENT. Outside these histories the filter keeps words the replay rejects: it does
  not record the position of an ABSENT mark, it does not bound the count of a letter that
  was CORRECT or PRESENT before it was ABSENT, and a later CORRECT letter overwrites the
  known letter of its position.
\<close>

theorem candidate_iff_replay_consistent:
  assumes f: "filter_words s = Inr (C, s')"
      and five: "five_letter_words (possible_answers s)"
      and w: "w \<in> possible_answers s"
  shows "((\<forall>gf\<in>set (feedback_history s). replays w gf) \<longrightarrow> w \<in> C) \<and>
         (well_formed_history (feedback_history s) \<and> valid_feedback (feedback_history s) \<and>
          green_consistent (feedback_history s) \<and> absent_unmixed (feedback_history s) \<longrightarrow>
            (w \<in> C \<longleftrightarrow> (\<forall>gf\<in>set (feedback_history s). replays w gf)))"
proof -
  have a: "w \<in> C" if "\<forall>gf\<in>set (feedback_history s). replays w gf"
    by (rule replay_consistent_kept[OF f w five that])
  have b: "\<forall>gf\<in>set (feedback_history s). replays w gf"
    if "well_formed_history (feedback_history s)" "valid_feedback (feedback_history s)"
       "green_consistent (feedback_history s)" "absent_unmixed (feedback_history s)" "w \<in> C"
  proof
    fix gf assume "gf \<in> set (feedback_history s)"
    then have "(fst gf, snd gf) \<in> set (feedback_history s)" by simp
    from candidate_replays[OF f five that this] show "replays w gf" by simp
  qed
  from a b show ?thesis by blast
qed

text \<open>
  In the witness \<open>sloop\<close> replays both entries and is a candidate by the first half;
  \<open>siren\<close> does not replay \<open>crane\<close> with \<open>XXXXX\<close> and is no candidate by the second half.
\<close>

theorem candidate_iff_replay_consistent_witness:
  "\<exists>C s'.
     filter_words ((init_solver {''crane'', ''moist'', ''siren'', ''sloop''} None)
        \<lparr>feedback_history := [(''crane'', ''XXXXX''), (''moist'', ''XYXYX'')]\<rparr>) = Inr (C, s') \<and>
     well_formed_history [(''crane'', ''XXXXX''), (''moist'', ''XYXYX'')] \<and>
     valid_feedback [(''crane'', ''XXXXX''), (''moist'', ''XYXYX'')] \<and>
     green_consistent [(''crane'', ''XXXXX''), (''moist'', ''XYXYX'')] \<and>
     absent_unmixed [(''crane'', ''XXXXX''), (''moist'', ''XYXYX'')] \<and>
     replays ''sloop'' (''crane'', ''XXXXX'') \<and> replays ''sloop'' (''moist'', ''XYXYX'') \<and>
     \<not> replays ''siren'' (''crane'', ''XXXXX'') \<and>
     ''sloop'' \<in> C \<and> ''siren'' \<notin> C"
proof -
  let ?h = "[(''crane'', ''XXXXX''), (''moist'', ''XYXYX'')]"
  let ?t = "(init_solver {''crane'', ''moist'', ''siren'', ''sloop''} None)\<lparr>feedback_history := ?h\<rparr>"
  have "\<not> isl (filter_words ?t)" by code_simp
  then obtain C s' where f: "filter_words ?t = Inr (C, s')"
    using Inr_projr by blast
  have hh: "feedback_history ?t = ?h" by simp
  have five: "five_letter_words (possible_answers ?t)"
    by (simp add: init_solver_def five_letter_words_def)
  have p1: "''sloop'' \<in> possible_answers ?t" and p2: "''siren'' \<in> possible_answers ?t"
    by (simp_all add: init_solver_def)
  have wf: "well_formed_history ?h" by (simp add: well_formed_history_def)
  have vf: "valid_feedback ?h" by (simp add: valid_feedback_def)
  have gc: "green_consistent ?h"
    by (auto simp: green_consistent_def less_Suc_eq eval_nat_numeral)
  have um: "absent_unmixed ?h"
    by (auto simp: absent_unmixed_def marked_def less_Suc_eq nth_Cons' split: if_splits)
  have r1: "replays ''sloop'' (''crane'', ''XXXXX'')" by code_simp
  have r2: "replays ''sloop'' (''moist'', ''XYXYX'')" by code_simp
  have r3: "\<not> replays ''siren'' (''crane'', ''XXXXX'')" by code_simp
  from r1 r2 have r: "\<forall>gf\<in>set (feedback_history ?t). replays ''sloop'' gf" by simp
  from conjunct1[OF candidate_iff_replay_consistent[OF f five p1]] r
  have k: "''sloop'' \<in> C" by blast
  from wf vf gc um have hyp: "well_formed_history (feedback_history ?t) \<and>
      valid_feedback (feedback_history ?t) \<and> green_consistent (feedback_history ?t) \<and>
      absent_unmixed (feedback_history ?t)" unfolding hh by simp
  from conjunct2[OF candidate_iff_replay_consistent[OF f five p2]] hyp
  have "''siren'' \<in> C \<longleftrightarrow> (\<forall>gf\<in>set (feedback_history ?t). replays ''siren'' gf)" by blast
  with r3 have n: "''siren'' \<notin> C" by simp
  show ?thesis by (intro exI conjI) (rule f wf vf gc um r1 r2 r3 k n)+
qed

text \<open>
  The claim as written fails, once for each condition on the history. \<open>siren\<close> against
  \<open>speed\<close> gives \<open>GXXGX\<close>, not the stored \<open>GXYXX\<close> (the \<open>e\<close> is PRESENT and ABSENT in one
  entry); \<open>fiery\<close> against \<open>equal\<close> gives \<open>YXXXX\<close>, not \<open>XXXXX\<close> (the \<open>e\<close> is ABSENT after
  it was PRESENT); \<open>spiky\<close> against \<open>plate\<close> gives \<open>YXXXX\<close>, not \<open>GXXXX\<close> (position 0 is
  CORRECT with \<open>p\<close> and then with \<open>s\<close>). Each word is a candidate all the same.
\<close>

theorem replay_consistency_counterexample:
  "map_sum id fst (filter_words ((init_solver {''siren''} None)
      \<lparr>feedback_history := [(''speed'', ''GXYXX'')]\<rparr>)) = Inr {''siren''} \<and>
   wordle_feedback ''siren'' ''speed'' = ''GXXGX'' \<and>
   \<not> replays ''siren'' (''speed'', ''GXYXX'') \<and>
   map_sum id fst (filter_words ((init_solver {''fiery''} None)
      \<lparr>feedback_history := [(''zzzze'', ''XXXXY''), (''equal'', ''XXXXX'')]\<rparr>)) = Inr {''fiery''} \<and>
   wordle_feedback ''fiery'' ''equal'' = ''YXXXX'' \<and>
   \<not> replays ''fiery'' (''equal'', ''XXXXX'') \<and>
   map_sum id fst (filter_words ((init_solver {''spiky''} None)
      \<lparr>feedback_history := [(''plate'', ''GXXXX''), (''slate'', ''GXXXX'')]\<rparr>)) = Inr {''spiky''} \<and>
   wordle_feedback ''spiky'' ''plate'' = ''YXXXX'' \<and>
   \<not> replays ''spiky'' (''plate'', ''GXXXX'')"
  by code_simp

subsection \<open>Why a word with a CORRECT or PRESENT letter is rejected\<close>

lemma non_gray_confirmed: "non_gray_loop (zip g f) (\<lambda>_. 0) c = confirmed_count (g, f) c"
  by (simp add: non_gray_loop_eq confirmed_count_def)

lemma letters_loop_sound_excl:
  assumes "\<forall>c. ng c \<le> count_list w c"
      and "\<forall>c. ng c < gc c \<and> c \<in> excl \<longrightarrow> count_list w c \<le> ng c"
      and "\<forall>c. count_list w c \<le> 5"
  shows "(\<forall>c m. fst mm c = Some m \<longrightarrow> m \<le> count_list w c) \<and>
         (\<forall>c v. snd mm c = Some v \<longrightarrow> count_list w c \<le> v) \<Longrightarrow>
         (\<forall>c m. fst (letters_loop ks gc ng excl mm) c = Some m \<longrightarrow> m \<le> count_list w c) \<and>
         (\<forall>c v. snd (letters_loop ks gc ng excl mm) c = Some v \<longrightarrow> count_list w c \<le> v)"
proof (induction ks arbitrary: mm)
  case Nil
  then show ?case by simp
next
  case (Cons l ks)
  obtain mn mx where mm: "mm = (mn, mx)" by (cases mm)
  let ?mn = "mn(l \<mapsto> max (counter_get mn l) (ng l))"
  let ?mx = "if ng l < gc l \<and> l \<in> excl then mx(l \<mapsto> min (default5_get mx l) (ng l)) else mx"
  from Cons.prems mm have mn: "\<And>c m. mn c = Some m \<Longrightarrow> m \<le> count_list w c"
    and mx: "\<And>c v. mx c = Some v \<Longrightarrow> count_list w c \<le> v" by auto
  have a: "counter_get mn l \<le> count_list w l"
    using mn[of l] by (auto simp: counter_get_def split: option.splits)
  have b: "count_list w l \<le> default5_get mx l"
    using mx[of l] assms(3) by (auto simp: default5_get_def split: option.splits)
  have "(\<forall>c m. ?mn c = Some m \<longrightarrow> m \<le> count_list w c) \<and>
        (\<forall>c v. ?mx c = Some v \<longrightarrow> count_list w c \<le> v)"
    using a b mn mx assms(1,2) by auto
  then have "(\<forall>c m. fst (?mn, ?mx) c = Some m \<longrightarrow> m \<le> count_list w c) \<and>
        (\<forall>c v. snd (?mn, ?mx) c = Some v \<longrightarrow> count_list w c \<le> v)" by simp
  from Cons.IH[OF this] show ?case unfolding mm by (simp add: Let_def)
qed

lemma count_bounds_sound_excl:
  assumes "\<forall>gf\<in>set h. \<forall>c. confirmed_count gf c \<le> count_list w c"
      and "\<forall>gf\<in>set h. \<forall>c. confirmed_count gf c < count_list (fst gf) c \<and> c \<in> excl
                            \<longrightarrow> count_list w c \<le> confirmed_count gf c"
      and "length w = 5"
  shows "(\<forall>c m. fst mm c = Some m \<longrightarrow> m \<le> count_list w c) \<and>
         (\<forall>c v. snd mm c = Some v \<longrightarrow> count_list w c \<le> v) \<Longrightarrow>
         counts_valid (fst (count_bounds h excl mm)) (snd (count_bounds h excl mm)) w"
  using assms(1,2)
proof (induction h arbitrary: mm)
  case Nil
  then show ?case by (simp add: sound_counts_valid)
next
  case (Cons gf h)
  obtain g f where gf: "gf = (g, f)" by (cases gf)
  let ?ng = "non_gray_loop (zip g f) (\<lambda>_. 0)"
  have five: "\<forall>c. count_list w c \<le> 5"
    using count_le_length[of w] assms(3) by (metis)
  from Cons.prems(2) gf have p1: "\<forall>c. ?ng c \<le> count_list w c"
    by (simp add: non_gray_confirmed)
  from Cons.prems(3) gf have p2: "\<forall>c. ?ng c < count_list g c \<and> c \<in> excl \<longrightarrow> count_list w c \<le> ?ng c"
    by (simp add: non_gray_confirmed)
  have "(\<forall>c m. fst (letters_loop (counter_keys g) (count_list g) ?ng excl mm) c = Some m
                 \<longrightarrow> m \<le> count_list w c) \<and>
        (\<forall>c v. snd (letters_loop (counter_keys g) (count_list g) ?ng excl mm) c = Some v
                 \<longrightarrow> count_list w c \<le> v)"
    by (rule letters_loop_sound_excl[OF p1 p2 five Cons.prems(1)])
  moreover from Cons.prems(2,3) have
    "\<forall>gf\<in>set h. \<forall>c. confirmed_count gf c \<le> count_list w c"
    "\<forall>gf\<in>set h. \<forall>c. confirmed_count gf c < count_list (fst gf) c \<and> c \<in> excl
                            \<longrightarrow> count_list w c \<le> confirmed_count gf c"
    by simp_all
  ultimately show ?case unfolding gf using Cons.IH by simp
qed

lemma capped_empties:
  assumes f: "filter_words s = Inr (C, s')"
      and m: "marked (feedback_history s) i letter (CHR ''G'') \<or>
              marked (feedback_history s) i letter (CHR ''Y'')"
      and c: "capped_at_zero (feedback_history s) (excluded_letters s') letter"
  shows "C = {}"
proof (rule ccontr)
  let ?h = "feedback_history s"
  assume "C \<noteq> {}"
  then obtain w where wC: "w \<in> C" by blast
  from f obtain s1 mn mx where
    u: "update_internal_state_from_history s = Inr s1" and
    s': "s' = s1\<lparr>possible_answers := C\<rparr>" and
    b: "count_bounds ?h (excluded_letters s1) (Map.empty, Map.empty) = (mn, mx)" and
    mem: "\<And>w. w \<in> C \<longleftrightarrow>
       w \<in> possible_answers s \<and>
       (\<forall>k<5. \<forall>c. known_letters s1 ! k = Some c \<longrightarrow> w ! k = c) \<and>
       (\<forall>c\<in>present_letters s1. c \<in> set w) \<and>
       (\<forall>k<5. \<forall>c\<in>misplaced_letters s1 ! k. w ! k \<noteq> c) \<and>
       (\<forall>c\<in>active_exclusions s1. c \<notin> set w) \<and>
       counts_valid mn mx w"
    by (rule filter_words_mem) simp
  from update_state_of_history(1)[OF u] m have "letter \<in> present_letters s1" by blast
  with wC mem have lw: "letter \<in> set w" by blast
  from wC mem have counts: "counts_valid mn mx w" by blast
  from c s' obtain g fb where ex: "letter \<in> excluded_letters s1" and gf: "(g, fb) \<in> set ?h"
    and lg: "letter \<in> set g" and z: "confirmed_count (g, fb) letter = 0"
    unfolding capped_at_zero_def by auto
  from lg have pos: "0 < count_list g letter" using count_list_0_iff[of g letter] by auto
  have "\<exists>v. snd (count_bounds ?h (excluded_letters s1) (Map.empty, Map.empty)) letter = Some v \<and>
            v \<le> non_gray_loop (zip g fb) (\<lambda>_. 0) letter"
    by (rule count_bounds_sets_max[OF gf lg ex]) (simp_all add: non_gray_confirmed z pos)
  with b z have "mx letter = Some 0" by (simp add: non_gray_confirmed)
  with counts lw have "count_list w letter = 0"
    unfolding counts_valid_def by (auto simp: dom_def)
  with lw show False using count_list_0_iff[of w letter] by auto
qed

lemma kept_without_reason:
  assumes f: "filter_words s = Inr (C, s')"
      and wf: "well_formed_history (feedback_history s)"
      and five: "five_letter_words (possible_answers s)"
      and m: "marked (feedback_history s) i letter (CHR ''G'') \<or>
              marked (feedback_history s) i letter (CHR ''Y'')"
      and nc: "\<not> capped_at_zero (feedback_history s) (excluded_letters s') letter"
      and w: "w \<in> possible_answers s"
      and r1: "\<And>k d. marked (feedback_history s) k d (CHR ''G'') \<Longrightarrow> w ! k = d"
      and r2: "\<And>k d. marked (feedback_history s) k d (CHR ''Y'') \<Longrightarrow> w ! k \<noteq> d \<and> d \<in> set w"
      and r3: "\<And>d k. d \<in> set w \<Longrightarrow> d \<noteq> letter \<Longrightarrow> marked (feedback_history s) k d (CHR ''X'') \<Longrightarrow>
                 \<exists>j. marked (feedback_history s) j d (CHR ''G'') \<or> marked (feedback_history s) j d (CHR ''Y'')"
      and r4: "\<And>gf d. gf \<in> set (feedback_history s) \<Longrightarrow> confirmed_count gf d \<le> count_list w d"
      and r5: "\<And>gf d. gf \<in> set (feedback_history s) \<Longrightarrow> d \<in> excluded_letters s' \<Longrightarrow>
                 confirmed_count gf d < count_list (fst gf) d \<Longrightarrow>
                 count_list w d \<le> confirmed_count gf d \<or> (d = letter \<and> confirmed_count gf d = 0)"
  shows "w \<in> C"
proof -
  let ?h = "feedback_history s"
  from f obtain s1 mn mx where
    u: "update_internal_state_from_history s = Inr s1" and
    s': "s' = s1\<lparr>possible_answers := C\<rparr>" and
    b: "count_bounds ?h (excluded_letters s1) (Map.empty, Map.empty) = (mn, mx)" and
    mem: "\<And>w. w \<in> C \<longleftrightarrow>
       w \<in> possible_answers s \<and>
       (\<forall>k<5. \<forall>c. known_letters s1 ! k = Some c \<longrightarrow> w ! k = c) \<and>
       (\<forall>c\<in>present_letters s1. c \<in> set w) \<and>
       (\<forall>k<5. \<forall>c\<in>misplaced_letters s1 ! k. w ! k \<noteq> c) \<and>
       (\<forall>c\<in>active_exclusions s1. c \<notin> set w) \<and>
       counts_valid mn mx w"
    by (rule filter_words_mem) simp
  note hst = update_state_of_history[OF u]
  from s' have ex: "excluded_letters s' = excluded_letters s1" by simp
  from w five have len: "length w = 5" by (simp add: five_letter_words_def)
  from hst(1) m have lp: "letter \<in> present_letters s1" by blast
  have known: "w ! k = c" if "k < 5" "known_letters s1 ! k = Some c" for k c
    using r1[OF hst(4)[OF that]] .
  have present: "c \<in> set w" if "c \<in> present_letters s1" for c
  proof -
    from that hst(1) obtain j where "marked ?h j c (CHR ''G'') \<or> marked ?h j c (CHR ''Y'')" by blast
    then show ?thesis
    proof
      assume g: "marked ?h j c (CHR ''G'')"
      then obtain g' f' where "(g', f') \<in> set ?h" "j < length g'" by (rule markedE)
      with wf have "j < 5" by (auto simp: well_formed_history_def)
      with len r1[OF g] show ?thesis by (metis nth_mem)
    next
      assume "marked ?h j c (CHR ''Y'')"
      from r2[OF this] show ?thesis by simp
    qed
  qed
  have misplaced: "w ! k \<noteq> c" if "k < 5" "c \<in> misplaced_letters s1 ! k" for k c
    using that hst(3)[of k] r2[of k c] by blast
  have active: "c \<notin> set w" if "c \<in> active_exclusions s1" for c
  proof
    assume cw: "c \<in> set w"
    from that have e1: "c \<in> excluded_letters s1" and p1: "c \<notin> present_letters s1"
      by (simp_all add: active_exclusions_def)
    from p1 lp have ne: "c \<noteq> letter" by auto
    from e1 hst(2) obtain k where "marked ?h k c (CHR ''X'')" by blast
    from r3[OF cw ne this] hst(1) p1 show False by blast
  qed
  have a4: "\<forall>gf\<in>set ?h. \<forall>c. confirmed_count gf c \<le> count_list w c" using r4 by blast
  have a5: "\<forall>gf\<in>set ?h. \<forall>c. confirmed_count gf c < count_list (fst gf) c \<and> c \<in> excluded_letters s1
                            \<longrightarrow> count_list w c \<le> confirmed_count gf c"
  proof (intro ballI allI impI)
    fix gf c assume gf: "gf \<in> set ?h"
      and "confirmed_count gf c < count_list (fst gf) c \<and> c \<in> excluded_letters s1"
    then have lt: "confirmed_count gf c < count_list (fst gf) c" and e: "c \<in> excluded_letters s'"
      by (simp_all add: ex)
    from r5[OF gf e lt] show "count_list w c \<le> confirmed_count gf c"
    proof
      assume "c = letter \<and> confirmed_count gf c = 0"
      then have cl: "c = letter" and z: "confirmed_count gf letter = 0" by auto
      from lt cl have "letter \<in> set (fst gf)" using count_list_0_iff[of "fst gf" letter] by auto
      with gf z e cl have "capped_at_zero ?h (excluded_letters s') letter"
        unfolding capped_at_zero_def by blast
      with nc show ?thesis by simp
    qed
  qed
  have "counts_valid (fst (count_bounds ?h (excluded_letters s1) (Map.empty, Map.empty)))
                     (snd (count_bounds ?h (excluded_letters s1) (Map.empty, Map.empty))) w"
    by (rule count_bounds_sound_excl[OF a4 a5 len]) simp
  with b have counts: "counts_valid mn mx w" by simp
  from w known present misplaced active counts show ?thesis
    unfolding mem by blast
qed

text \<open>
  Claim C3, as the code has it. Let \<open>letter\<close> have CORRECT or PRESENT feedback somewhere in
  a history of five-letter entries. Then \<open>letter\<close> is never in the set the whole-word
  exclusion step uses (\<open>active_exclusions\<close>). The count step can still reject every word
  that contains \<open>letter\<close>: when \<open>letter\<close> is in \<open>_excluded_letters\<close> (it was marked ABSENT
  before its first CORRECT or PRESENT mark was recorded) and some entry has the letter
  without a CORRECT or PRESENT mark of it, the cap on its count is 0 and the candidate set
  is empty. In every other case a word of the pool that \<open>filter_words\<close> rejects is
  rejected for one of these reasons, none of which is that it merely contains \<open>letter\<close>:
  a position marked CORRECT holds another letter; a letter marked PRESENT stands at the
  marked position or is missing; the word contains another letter that is marked ABSENT
  and never CORRECT or PRESENT; a letter occurs less often than an entry marks it CORRECT
  or PRESENT; or a letter of \<open>_excluded_letters\<close> occurs more often than an entry, which
  has more copies of it than CORRECT and PRESENT marks, marks it CORRECT or PRESENT, and
  for \<open>letter\<close> itself this bound is at least 1.
\<close>

theorem marked_letter_rejected_only_for_position_or_count:
  assumes f: "filter_words s = Inr (C, s')"
      and wf: "well_formed_history (feedback_history s)"
      and five: "five_letter_words (possible_answers s)"
      and m: "marked (feedback_history s) i letter (CHR ''G'') \<or>
              marked (feedback_history s) i letter (CHR ''Y'')"
  shows "letter \<notin> active_exclusions s' \<and>
         (capped_at_zero (feedback_history s) (excluded_letters s') letter \<longrightarrow> C = {}) \<and>
         (\<not> capped_at_zero (feedback_history s) (excluded_letters s') letter \<longrightarrow>
            (\<forall>w\<in>possible_answers s. w \<notin> C \<longrightarrow>
               (\<exists>k d. marked (feedback_history s) k d (CHR ''G'') \<and> w ! k \<noteq> d) \<or>
               (\<exists>k d. marked (feedback_history s) k d (CHR ''Y'') \<and> (w ! k = d \<or> d \<notin> set w)) \<or>
               (\<exists>d\<in>set w. d \<noteq> letter \<and> (\<exists>k. marked (feedback_history s) k d (CHR ''X'')) \<and>
                  (\<forall>j. \<not> marked (feedback_history s) j d (CHR ''G'') \<and>
                       \<not> marked (feedback_history s) j d (CHR ''Y''))) \<or>
               (\<exists>gf\<in>set (feedback_history s). \<exists>d. count_list w d < confirmed_count gf d) \<or>
               (\<exists>gf\<in>set (feedback_history s). \<exists>d. d \<in> excluded_letters s' \<and>
                  confirmed_count gf d < count_list (fst gf) d \<and>
                  confirmed_count gf d < count_list w d \<and>
                  (d = letter \<longrightarrow> 0 < confirmed_count gf d))))"
proof (intro conjI impI ballI)
  from f obtain s1 mn mx where
    u: "update_internal_state_from_history s = Inr s1" and
    s': "s' = s1\<lparr>possible_answers := C\<rparr>"
    by (rule filter_words_mem)
  from update_state_of_history(1)[OF u] m have "letter \<in> present_letters s1" by blast
  then show "letter \<notin> active_exclusions s'"
    by (simp add: active_exclusions_def s')
next
  assume "capped_at_zero (feedback_history s) (excluded_letters s') letter"
  from capped_empties[OF f m this] show "C = {}" .
next
  let ?h = "feedback_history s"
  fix w
  assume nc: "\<not> capped_at_zero ?h (excluded_letters s') letter"
    and w: "w \<in> possible_answers s" and nC: "w \<notin> C"
  show "(\<exists>k d. marked ?h k d (CHR ''G'') \<and> w ! k \<noteq> d) \<or>
        (\<exists>k d. marked ?h k d (CHR ''Y'') \<and> (w ! k = d \<or> d \<notin> set w)) \<or>
        (\<exists>d\<in>set w. d \<noteq> letter \<and> (\<exists>k. marked ?h k d (CHR ''X'')) \<and>
           (\<forall>j. \<not> marked ?h j d (CHR ''G'') \<and> \<not> marked ?h j d (CHR ''Y''))) \<or>
        (\<exists>gf\<in>set ?h. \<exists>d. count_list w d < confirmed_count gf d) \<or>
        (\<exists>gf\<in>set ?h. \<exists>d. d \<in> excluded_letters s' \<and>
           confirmed_count gf d < count_list (fst gf) d \<and>
           confirmed_count gf d < count_list w d \<and>
           (d = letter \<longrightarrow> 0 < confirmed_count gf d))"
  proof (rule ccontr)
    assume n: "\<not> ?thesis"
    have r1: "w ! k = d" if "marked ?h k d (CHR ''G'')" for k d
      using n that by blast
    have r2: "w ! k \<noteq> d \<and> d \<in> set w" if "marked ?h k d (CHR ''Y'')" for k d
      using n that by blast
    have r3: "\<exists>j. marked ?h j d (CHR ''G'') \<or> marked ?h j d (CHR ''Y'')"
      if "d \<in> set w" "d \<noteq> letter" "marked ?h k d (CHR ''X'')" for d k
      using n that by blast
    have r4: "confirmed_count gf d \<le> count_list w d" if "gf \<in> set ?h" for gf d
    proof -
      from n that have "\<not> count_list w d < confirmed_count gf d" by blast
      then show ?thesis by simp
    qed
    have r5: "count_list w d \<le> confirmed_count gf d \<or> (d = letter \<and> confirmed_count gf d = 0)"
      if "gf \<in> set ?h" "d \<in> excluded_letters s'" "confirmed_count gf d < count_list (fst gf) d"
      for gf d
    proof -
      from n that have "\<not> (confirmed_count gf d < count_list w d \<and>
                            (d = letter \<longrightarrow> 0 < confirmed_count gf d))" by blast
      then show ?thesis by auto
    qed
    from kept_without_reason[OF f wf five m nc w r1 r2 r3 r4 r5] nC show False by simp
  qed
qed

text \<open>
  In the first part of the witness the first \<open>e\<close> of \<open>speed\<close> is ABSENT and the second
  PRESENT: \<open>e\<close> enters \<open>_excluded_letters\<close>, its count is capped at 1, and \<open>serve\<close> is
  rejected for its two \<open>e\<close>. In the second part \<open>e\<close> is ABSENT alone in \<open>abide\<close> and PRESENT
  in \<open>eagle\<close>: the cap is 0 and no candidate is left.
\<close>

theorem marked_letter_rejected_only_for_position_or_count_witness:
  "(\<exists>C s'.
     filter_words ((init_solver {''siren'', ''seaty'', ''serve''} None)
                    \<lparr>feedback_history := [(''speed'', ''GXXYX'')]\<rparr>) = Inr (C, s') \<and>
     marked [(''speed'', ''GXXYX'')] 3 (CHR ''e'') (CHR ''Y'') \<and>
     CHR ''e'' \<in> excluded_letters s' \<and>
     \<not> capped_at_zero [(''speed'', ''GXXYX'')] (excluded_letters s') (CHR ''e'') \<and>
     CHR ''e'' \<notin> active_exclusions s' \<and>
     ''serve'' \<notin> C \<and>
     ((\<exists>k d. marked [(''speed'', ''GXXYX'')] k d (CHR ''G'') \<and> ''serve'' ! k \<noteq> d) \<or>
      (\<exists>k d. marked [(''speed'', ''GXXYX'')] k d (CHR ''Y'') \<and>
              (''serve'' ! k = d \<or> d \<notin> set ''serve'')) \<or>
      (\<exists>d\<in>set ''serve''. d \<noteq> CHR ''e'' \<and> (\<exists>k. marked [(''speed'', ''GXXYX'')] k d (CHR ''X'')) \<and>
         (\<forall>j. \<not> marked [(''speed'', ''GXXYX'')] j d (CHR ''G'') \<and>
              \<not> marked [(''speed'', ''GXXYX'')] j d (CHR ''Y''))) \<or>
      (\<exists>gf\<in>set [(''speed'', ''GXXYX'')]. \<exists>d. count_list ''serve'' d < confirmed_count gf d) \<or>
      (\<exists>gf\<in>set [(''speed'', ''GXXYX'')]. \<exists>d. d \<in> excluded_letters s' \<and>
         confirmed_count gf d < count_list (fst gf) d \<and>
         confirmed_count gf d < count_list ''serve'' d \<and>
         (d = CHR ''e'' \<longrightarrow> 0 < confirmed_count gf d)))) \<and>
   (\<exists>C s'.
     filter_words ((init_solver {''fever''} None)
                    \<lparr>feedback_history := [(''abide'', ''XXXXX''), (''eagle'', ''YXXXX'')]\<rparr>) = Inr (C, s') \<and>
     marked [(''abide'', ''XXXXX''), (''eagle'', ''YXXXX'')] 0 (CHR ''e'') (CHR ''Y'') \<and>
     capped_at_zero [(''abide'', ''XXXXX''), (''eagle'', ''YXXXX'')] (excluded_letters s') (CHR ''e'') \<and>
     C = {})"
proof
  let ?h = "[(''speed'', ''GXXYX'')]"
  let ?t = "(init_solver {''siren'', ''seaty'', ''serve''} None)\<lparr>feedback_history := ?h\<rparr>"
  have "\<not> isl (filter_words ?t)" by code_simp
  then obtain C s' where f: "filter_words ?t = Inr (C, s')"
    using Inr_projr by blast
  have hh: "feedback_history ?t = ?h" by simp
  have wf: "well_formed_history (feedback_history ?t)" by (simp add: well_formed_history_def)
  have five: "five_letter_words (possible_answers ?t)"
    by (simp add: init_solver_def five_letter_words_def)
  have m: "marked ?h 3 (CHR ''e'') (CHR ''Y'')" by code_simp
  then have m': "marked (feedback_history ?t) 3 (CHR ''e'') (CHR ''G'') \<or>
                 marked (feedback_history ?t) 3 (CHR ''e'') (CHR ''Y'')"
    unfolding hh by (rule disjI2)
  have "CHR ''e'' \<in> excluded_letters (snd (projr (filter_words ?t)))" by code_simp
  with f have e: "CHR ''e'' \<in> excluded_letters s'" by simp
  have "\<not> capped_at_zero ?h (excluded_letters (snd (projr (filter_words ?t)))) (CHR ''e'')"
    by code_simp
  with f have nc: "\<not> capped_at_zero ?h (excluded_letters s') (CHR ''e'')" by simp
  have "''serve'' \<notin> fst (projr (filter_words ?t))" by code_simp
  with f have nC: "''serve'' \<notin> C" by simp
  have p: "''serve'' \<in> possible_answers ?t" by (simp add: init_solver_def)
  note th = marked_letter_rejected_only_for_position_or_count[OF f wf five m', unfolded hh]
  from th have a: "CHR ''e'' \<notin> active_exclusions s'" by (rule conjunct1)
  from th nc have "\<forall>w\<in>possible_answers ?t. w \<notin> C \<longrightarrow>
      (\<exists>k d. marked ?h k d (CHR ''G'') \<and> w ! k \<noteq> d) \<or>
      (\<exists>k d. marked ?h k d (CHR ''Y'') \<and> (w ! k = d \<or> d \<notin> set w)) \<or>
      (\<exists>d\<in>set w. d \<noteq> CHR ''e'' \<and> (\<exists>k. marked ?h k d (CHR ''X'')) \<and>
         (\<forall>j. \<not> marked ?h j d (CHR ''G'') \<and> \<not> marked ?h j d (CHR ''Y''))) \<or>
      (\<exists>gf\<in>set ?h. \<exists>d. count_list w d < confirmed_count gf d) \<or>
      (\<exists>gf\<in>set ?h. \<exists>d. d \<in> excluded_letters s' \<and>
         confirmed_count gf d < count_list (fst gf) d \<and>
         confirmed_count gf d < count_list w d \<and>
         (d = CHR ''e'' \<longrightarrow> 0 < confirmed_count gf d))"
    by (rule mp[OF conjunct2[OF conjunct2]])
  from this[rule_format, OF p nC] have r:
     "(\<exists>k d. marked ?h k d (CHR ''G'') \<and> ''serve'' ! k \<noteq> d) \<or>
      (\<exists>k d. marked ?h k d (CHR ''Y'') \<and> (''serve'' ! k = d \<or> d \<notin> set ''serve'')) \<or>
      (\<exists>d\<in>set ''serve''. d \<noteq> CHR ''e'' \<and> (\<exists>k. marked ?h k d (CHR ''X'')) \<and>
         (\<forall>j. \<not> marked ?h j d (CHR ''G'') \<and> \<not> marked ?h j d (CHR ''Y''))) \<or>
      (\<exists>gf\<in>set ?h. \<exists>d. count_list ''serve'' d < confirmed_count gf d) \<or>
      (\<exists>gf\<in>set ?h. \<exists>d. d \<in> excluded_letters s' \<and>
         confirmed_count gf d < count_list (fst gf) d \<and>
         confirmed_count gf d < count_list ''serve'' d \<and>
         (d = CHR ''e'' \<longrightarrow> 0 < confirmed_count gf d))" .
  show "\<exists>C s'.
     filter_words ?t = Inr (C, s') \<and>
     marked ?h 3 (CHR ''e'') (CHR ''Y'') \<and>
     CHR ''e'' \<in> excluded_letters s' \<and>
     \<not> capped_at_zero ?h (excluded_letters s') (CHR ''e'') \<and>
     CHR ''e'' \<notin> active_exclusions s' \<and>
     ''serve'' \<notin> C \<and>
     ((\<exists>k d. marked ?h k d (CHR ''G'') \<and> ''serve'' ! k \<noteq> d) \<or>
      (\<exists>k d. marked ?h k d (CHR ''Y'') \<and> (''serve'' ! k = d \<or> d \<notin> set ''serve'')) \<or>
      (\<exists>d\<in>set ''serve''. d \<noteq> CHR ''e'' \<and> (\<exists>k. marked ?h k d (CHR ''X'')) \<and>
         (\<forall>j. \<not> marked ?h j d (CHR ''G'') \<and> \<not> marked ?h j d (CHR ''Y''))) \<or>
      (\<exists>gf\<in>set ?h. \<exists>d. count_list ''serve'' d < confirmed_count gf d) \<or>
      (\<exists>gf\<in>set ?h. \<exists>d. d \<in> excluded_letters s' \<and>
         confirmed_count gf d < count_list (fst gf) d \<and>
         confirmed_count gf d < count_list ''serve'' d \<and>
         (d = CHR ''e'' \<longrightarrow> 0 < confirmed_count gf d)))"
    by (intro exI conjI) (rule f m e nc a nC r)+
next
  let ?h = "[(''abide'', ''XXXXX''), (''eagle'', ''YXXXX'')]"
  let ?t = "(init_solver {''fever''} None)\<lparr>feedback_history := ?h\<rparr>"
  have "\<not> isl (filter_words ?t)" by code_simp
  then obtain C s' where f: "filter_words ?t = Inr (C, s')"
    using Inr_projr by blast
  have hh: "feedback_history ?t = ?h" by simp
  have wf: "well_formed_history (feedback_history ?t)" by (simp add: well_formed_history_def)
  have five: "five_letter_words (possible_answers ?t)"
    by (simp add: init_solver_def five_letter_words_def)
  have m: "marked ?h 0 (CHR ''e'') (CHR ''Y'')" by code_simp
  then have m': "marked (feedback_history ?t) 0 (CHR ''e'') (CHR ''G'') \<or>
                 marked (feedback_history ?t) 0 (CHR ''e'') (CHR ''Y'')"
    unfolding hh by (rule disjI2)
  have "capped_at_zero ?h (excluded_letters (snd (projr (filter_words ?t)))) (CHR ''e'')"
    by code_simp
  with f have c: "capped_at_zero ?h (excluded_letters s') (CHR ''e'')" by simp
  note th = marked_letter_rejected_only_for_position_or_count[OF f wf five m', unfolded hh]
  from th c have e: "C = {}" by blast
  show "\<exists>C s'. filter_words ?t = Inr (C, s') \<and> marked ?h 0 (CHR ''e'') (CHR ''Y'') \<and>
     capped_at_zero ?h (excluded_letters s') (CHR ''e'') \<and> C = {}"
    by (intro exI conjI) (rule f m c e)+
qed

text \<open>
  The claim as written fails: \<open>e\<close> is PRESENT in the second entry, and \<open>fiery\<close>, which
  shares no other letter with the two guesses, is rejected because it contains \<open>e\<close>.
  With the second entry alone, or with the two entries in the other order, \<open>fiery\<close> is a
  candidate.
\<close>

theorem marked_letter_counterexample:
  "map_sum id fst (filter_words ((init_solver {''fiery''} None)
      \<lparr>feedback_history := [(''equal'', ''XXXXX''), (''zzzze'', ''XXXXY'')]\<rparr>)) = Inr {} \<and>
   marked [(''equal'', ''XXXXX''), (''zzzze'', ''XXXXY'')] 4 (CHR ''e'') (CHR ''Y'') \<and>
   CHR ''e'' \<in> set ''fiery'' \<and>
   map_sum id fst (filter_words ((init_solver {''fiery''} None)
      \<lparr>feedback_history := [(''zzzze'', ''XXXXY'')]\<rparr>)) = Inr {''fiery''} \<and>
   map_sum id fst (filter_words ((init_solver {''fiery''} None)
      \<lparr>feedback_history := [(''zzzze'', ''XXXXY''), (''equal'', ''XXXXX'')]\<rparr>)) = Inr {''fiery''}"
  by code_simp

subsection \<open>Words of the history among the suggestions of both versions\<close>

lemma heap_loop_from_pool:
  "heap_loop s pf lf C e K ws heap = Inr heap' \<Longrightarrow>
     \<forall>it\<in>set heap'. it \<in> set heap \<or> snd (snd it) \<in> set ws"
proof (induction ws arbitrary: heap)
  case Nil
  then show ?case by simp
next
  case (Cons word ws)
  show ?case
  proof (cases "score_word_exp s word pf lf C e")
    case (Inl err)
    with Cons.prems show ?thesis by simp
  next
    case (Inr r)
    show ?thesis
    proof (cases r)
      case None
      with Inr Cons.prems have "heap_loop s pf lf C e K ws heap = Inr heap'" by simp
      from Cons.IH[OF this] show ?thesis by auto
    next
      case (Some score)
      let ?item = "(- score, word \<notin> C, word)"
      let ?h = "if int (length heap) < K then ?item # heap else heappushpop heap ?item"
      from Some Inr Cons.prems have "heap_loop s pf lf C e K ws ?h = Inr heap'"
        by (simp add: Let_def)
      from Cons.IH[OF this] have
        r: "\<forall>it\<in>set heap'. it \<in> set ?h \<or> snd (snd it) \<in> set ws" .
      have h: "set ?h \<subseteq> insert ?item (set heap)" using set_heappushpop[of heap ?item] by auto
      show ?thesis
      proof
        fix it assume "it \<in> set heap'"
        with r have "it \<in> set ?h \<or> snd (snd it) \<in> set ws" by blast
        then show "it \<in> set heap \<or> snd (snd it) \<in> set (word # ws)"
        proof
          assume "it \<in> set ?h"
          with h have "it = ?item \<or> it \<in> set heap" by blast
          then show ?thesis by auto
        qed simp
      qed
    qed
  qed
qed

lemma length_heappushpop: "length (heappushpop heap item) = length heap"
proof -
  have "finite (set (item # heap))" "set (item # heap) \<noteq> {}" by simp_all
  then have "Min (set (item # heap)) \<in> set (item # heap)" by (rule Min_in)
  from length_remove1[of "Min (set (item # heap))" "item # heap"] this
  show ?thesis unfolding heappushpop_def by (simp only: if_True length_Cons diff_Suc_1)
qed

lemma heap_loop_empty:
  "heap_loop s pf lf C e K ws heap = Inr [] \<Longrightarrow> 0 < K \<Longrightarrow>
     heap = [] \<and> (\<forall>x\<in>set ws. score_word_exp s x pf lf C e = Inr None)"
proof (induction ws arbitrary: heap)
  case Nil
  then show ?case by simp
next
  case (Cons word ws)
  show ?case
  proof (cases "score_word_exp s word pf lf C e")
    case (Inl err)
    with Cons.prems show ?thesis by simp
  next
    case (Inr r)
    show ?thesis
    proof (cases r)
      case None
      with Inr Cons.prems have "heap_loop s pf lf C e K ws heap = Inr []" by simp
      from Cons.IH[OF this Cons.prems(2)] None Inr show ?thesis by simp
    next
      case (Some score)
      let ?item = "(- score, word \<notin> C, word)"
      let ?h = "if int (length heap) < K then ?item # heap else heappushpop heap ?item"
      from Some Inr Cons.prems have "heap_loop s pf lf C e K ws ?h = Inr []"
        by (simp add: Let_def)
      from Cons.IH[OF this Cons.prems(2)] have e: "?h = []" by simp
      have "?h \<noteq> []"
      proof (cases "int (length heap) < K")
        case True
        then show ?thesis by simp
      next
        case False
        with Cons.prems(2) have "0 < length heap" by (cases heap) auto
        with length_heappushpop[of heap ?item] have "heappushpop heap ?item \<noteq> []" by auto
        with False show ?thesis by simp
      qed
      with e show ?thesis by simp
    qed
  qed
qed

lemma suggest_guess_exp_cases:
  assumes "suggest_guess_exp iter s e K = Inr (ws, s')" and "filter_words_exp s = Inr (C, s')"
  obtains "C = {}" "ws = [''No valid words remaining.'']"
  | word rest where "card C = 1" "iter C = word # rest" "ws = [word]"
  | pf heap where "C \<noteq> {}" "card C \<noteq> 1"
      "calculate_positional_frequencies iter C = Inr pf"
      "heap_loop s' pf (calculate_letter_frequencies iter C) C e K
         (iter ((if e then all_words s' else C) - fst ` set (feedback_history s'))) [] = Inr heap"
      "ws = (if heap = [] then slice_to K (sorted_list_of_set C)
             else map (\<lambda>(neg_score, not_possible, word). word) (sort heap))"
proof (cases "C = {}")
  case True
  with assms that(1) show ?thesis by (simp add: suggest_guess_exp_def)
next
  case ne: False
  show ?thesis
  proof (cases "card C = 1")
    case True
    with assms ne that(2) show ?thesis
      by (auto simp: suggest_guess_exp_def split: list.splits)
  next
    case False
    from assms ne False obtain pf heap where
      pf: "calculate_positional_frequencies iter C = Inr pf" and
      h: "heap_loop s' pf (calculate_letter_frequencies iter C) C e K
            (iter ((if e then all_words s' else C) - fst ` set (feedback_history s'))) [] = Inr heap" and
      res: "ws = (if map (\<lambda>(neg_score, not_possible, word). word) (sort heap) = []
                  then slice_to K (sorted_list_of_set C)
                  else map (\<lambda>(neg_score, not_possible, word). word) (sort heap))"
      by (auto simp: suggest_guess_exp_def Let_def split: sum.splits if_splits)
    have "(map (\<lambda>(neg_score, not_possible, word). word) (sort heap) = []) = (heap = [])"
      by (metis length_0_conv length_map length_sort)
    with res have "ws = (if heap = [] then slice_to K (sorted_list_of_set C)
             else map (\<lambda>(neg_score, not_possible, word). word) (sort heap))" by simp
    from that(3)[OF ne False pf h this] show ?thesis .
  qed
qed

lemma suggest_guess_exp_spent:
  assumes r: "suggest_guess_exp iter s e K = Inr (ws, s')"
      and f: "filter_words_exp s = Inr (C, s')"
      and five: "\<forall>(guess, feedback)\<in>set (feedback_history s). length guess = 5"
      and it: "lists_set iter ((if e then all_words s else C) - fst ` set (feedback_history s))"
  shows "(card C = 1 \<and> lists_set iter C \<longrightarrow> (\<exists>w. C = {w} \<and> ws = [w])) \<and>
         (card C \<noteq> 1 \<longrightarrow>
            (\<forall>x\<in>set ws. x \<notin> fst ` set (feedback_history s)) \<or>
            (ws = slice_to K (sorted_list_of_set C) \<and>
             (K \<le> 0 \<or>
              (\<exists>pf. calculate_positional_frequencies iter C = Inr pf \<and>
                 (\<forall>x\<in>(if e then all_words s else C) - fst ` set (feedback_history s).
                    score_word_exp s' x pf (calculate_letter_frequencies iter C) C e = Inr None)))))"
proof -
  let ?G = "fst ` set (feedback_history s)"
  have five': "length g = 5" if "g \<in> ?G" for g
    using that five by auto
  have fr: "all_words s' = all_words s" "feedback_history s' = feedback_history s"
  proof -
    from f obtain s1 where
      u: "update_internal_state_from_history_exp s = Inr s1"
      by (auto simp: filter_words_exp_def split: sum.splits)
    from u have a: "all_words s1 = all_words s" "feedback_history s1 = feedback_history s"
      using update_loop_exp_frame[of "feedback_history s" "reset_solver_state s" s1]
      by (simp_all add: update_internal_state_from_history_exp_def reset_solver_state_def)
    from f u have "s' = s1\<lparr>possible_answers := C\<rparr>"
      by (auto simp: filter_words_exp_def Let_def split: prod.splits)
    with a show "all_words s' = all_words s" "feedback_history s' = feedback_history s" by simp_all
  qed
  from r f show ?thesis
  proof (cases rule: suggest_guess_exp_cases)
    case 1
    have "''No valid words remaining.'' \<notin> ?G"
      using five'[of "''No valid words remaining.''"] by auto
    with 1 show ?thesis by simp
  next
    case (2 word rest)
    have "\<exists>w. C = {w} \<and> ws = [w]" if "lists_set iter C"
    proof -
      from that 2(2) have "word \<in> C" by (auto simp: lists_set_def)
      with 2(1) have "C = {word}" by (metis card_1_singletonE singletonD)
      with 2(3) show ?thesis by simp
    qed
    with 2(1) show ?thesis by simp
  next
    case (3 pf heap)
    let ?P = "(if e then all_words s else C) - ?G"
    from 3(4) have h: "heap_loop s' pf (calculate_letter_frequencies iter C) C e K (iter ?P) [] = Inr heap"
      unfolding fr .
    from it have sp: "set (iter ?P) = ?P" by (simp add: lists_set_def)
    have "(\<forall>x\<in>set ws. x \<notin> ?G) \<or>
            (ws = slice_to K (sorted_list_of_set C) \<and>
             (K \<le> 0 \<or>
              (\<exists>pf. calculate_positional_frequencies iter C = Inr pf \<and>
                 (\<forall>x\<in>?P. score_word_exp s' x pf (calculate_letter_frequencies iter C) C e = Inr None))))"
    proof (cases "heap = []")
      case True
      with 3(5) have w: "ws = slice_to K (sorted_list_of_set C)" by simp
      have "K \<le> 0 \<or> (\<forall>x\<in>?P. score_word_exp s' x pf (calculate_letter_frequencies iter C) C e = Inr None)"
      proof (cases "0 < K")
        case pos: True
        from heap_loop_empty[OF h[unfolded True] pos] sp show ?thesis by simp
      next
        case False
        then show ?thesis by simp
      qed
      with w 3(3) show ?thesis by blast
    next
      case False
      with 3(5) have w: "ws = map (\<lambda>(neg_score, not_possible, word). word) (sort heap)" by simp
      have "x \<notin> ?G" if "x \<in> set ws" for x
      proof -
        from that w obtain it' where i: "it' \<in> set heap" and xi: "x = snd (snd it')"
          by (auto simp: case_prod_unfold)
        from heap_loop_from_pool[OF h] i have "snd (snd it') \<in> set (iter ?P)" by auto
        with sp xi show ?thesis by simp
      qed
      then show ?thesis by blast
    qed
    with 3(2) show ?thesis by simp
  qed
qed

lemma suggest_guess_exp_state:
  assumes "suggest_guess_exp iter s e K = Inr (ws, s')"
  shows "\<exists>C. filter_words_exp s = Inr (C, s')"
  using assms unfolding suggest_guess_exp_def
  by (auto simp: Let_def split: sum.splits prod.splits if_splits list.splits)

text \<open>
  Claim C5, as the code has it, for both versions the claim cites and a history of
  five-letter guesses. In V3 \<open>suggest_guess\<close> returns a word of the
  history only when it is the single candidate left. The latest version returns its
  suggestions as a list; a word of the history is in it only when it is the single
  candidate left, or when the list is the fallback of the last lines of \<open>suggest_guess\<close>,
  the first \<open>num_suggestions\<close> candidates in alphabetical order, which is taken when the
  heap stays empty: \<open>num_suggestions\<close> is not positive, or every word of the scoring pool
  that is not a guess of the history scores \<open>-inf\<close>.
\<close>

theorem spent_guess_only_as_sole_candidate_or_fallback:
  assumes five: "\<forall>(guess, feedback)\<in>set (feedback_history s). length guess = 5"
  shows "(suggest_guess iter s elimination_mode = Inr (w, s_v3) \<and> filter_words s = Inr (C_v3, s_v3) \<longrightarrow>
            (card C_v3 \<noteq> 1 \<longrightarrow> w \<notin> fst ` set (feedback_history s)) \<and>
            (card C_v3 = 1 \<and> lists_set iter C_v3 \<longrightarrow> C_v3 = {w})) \<and>
         (suggest_guess_exp iter s elimination_mode num_suggestions = Inr (ws, s_exp) \<and>
          filter_words_exp s = Inr (C_exp, s_exp) \<and>
          lists_set iter ((if elimination_mode then all_words s else C_exp)
                            - fst ` set (feedback_history s)) \<longrightarrow>
            (card C_exp = 1 \<and> lists_set iter C_exp \<longrightarrow> (\<exists>x. C_exp = {x} \<and> ws = [x])) \<and>
            (card C_exp \<noteq> 1 \<longrightarrow>
               (\<forall>x\<in>set ws. x \<notin> fst ` set (feedback_history s)) \<or>
               (ws = slice_to num_suggestions (sorted_list_of_set C_exp) \<and>
                (num_suggestions \<le> 0 \<or>
                 (\<exists>pf. calculate_positional_frequencies iter C_exp = Inr pf \<and>
                    (\<forall>x\<in>(if elimination_mode then all_words s else C_exp)
                           - fst ` set (feedback_history s).
                       score_word_exp s_exp x pf (calculate_letter_frequencies iter C_exp) C_exp
                         elimination_mode = Inr None))))))"
proof (intro conjI impI)
  assume a: "suggest_guess iter s elimination_mode = Inr (w, s_v3) \<and> filter_words s = Inr (C_v3, s_v3)"
  note r = suggest_guess_spent[OF conjunct1[OF a] conjunct2[OF a] five]
  { assume "card C_v3 \<noteq> 1"
    with r show "w \<notin> fst ` set (feedback_history s)" by blast }
  { assume "card C_v3 = 1 \<and> lists_set iter C_v3"
    with r show "C_v3 = {w}" by blast }
next
  assume a: "suggest_guess_exp iter s elimination_mode num_suggestions = Inr (ws, s_exp) \<and>
          filter_words_exp s = Inr (C_exp, s_exp) \<and>
          lists_set iter ((if elimination_mode then all_words s else C_exp)
                            - fst ` set (feedback_history s))"
  then have a1: "suggest_guess_exp iter s elimination_mode num_suggestions = Inr (ws, s_exp)"
    and a2: "filter_words_exp s = Inr (C_exp, s_exp)"
    and a3: "lists_set iter ((if elimination_mode then all_words s else C_exp)
                            - fst ` set (feedback_history s))" by blast+
  note r = suggest_guess_exp_spent[OF a1 a2 five a3]
  { assume "card C_exp = 1 \<and> lists_set iter C_exp"
    with r show "\<exists>x. C_exp = {x} \<and> ws = [x]" by blast }
  { assume "card C_exp \<noteq> 1"
    with conjunct2[OF r] show
      "(\<forall>x\<in>set ws. x \<notin> fst ` set (feedback_history s)) \<or>
               (ws = slice_to num_suggestions (sorted_list_of_set C_exp) \<and>
                (num_suggestions \<le> 0 \<or>
                 (\<exists>pf. calculate_positional_frequencies iter C_exp = Inr pf \<and>
                    (\<forall>x\<in>(if elimination_mode then all_words s else C_exp)
                           - fst ` set (feedback_history s).
                       score_word_exp s_exp x pf (calculate_letter_frequencies iter C_exp) C_exp
                         elimination_mode = Inr None))))" by (rule mp) }
qed

text \<open>
  The witness runs V3 on three candidates and the latest version on two candidates that
  are both guesses of the history; there the first alternative fails and the theorem
  gives the fallback.
\<close>

theorem spent_guess_only_as_sole_candidate_or_fallback_witness:
  "(\<exists>w s1 C1.
     suggest_guess sorted_list_of_set
       ((init_solver {''siren'', ''seaty'', ''serve'', ''speed''} None)
          \<lparr>feedback_history := [(''speed'', ''GXYXX'')]\<rparr>) True = Inr (w, s1) \<and>
     filter_words
       ((init_solver {''siren'', ''seaty'', ''serve'', ''speed''} None)
          \<lparr>feedback_history := [(''speed'', ''GXYXX'')]\<rparr>) = Inr (C1, s1) \<and>
     card C1 = 3 \<and> w \<notin> fst ` set [(''speed'', ''GXYXX'')]) \<and>
   (\<exists>ws s2 C2.
     suggest_guess_exp sorted_list_of_set
       ((init_solver {''aabbc'', ''abbac''} None)
          \<lparr>feedback_history := [(''aaabc'', ''GXGXG''), (''bbbac'', ''GXGXG''),
                                 (''aabbc'', ''GXGXG''), (''abbac'', ''GXGXG'')]\<rparr>) False 5
       = Inr (ws, s2) \<and>
     filter_words_exp
       ((init_solver {''aabbc'', ''abbac''} None)
          \<lparr>feedback_history := [(''aaabc'', ''GXGXG''), (''bbbac'', ''GXGXG''),
                                 (''aabbc'', ''GXGXG''), (''abbac'', ''GXGXG'')]\<rparr>) = Inr (C2, s2) \<and>
     C2 = {''aabbc'', ''abbac''} \<and>
     lists_set sorted_list_of_set
       (C2 - fst ` set [(''aaabc'', ''GXGXG''), (''bbbac'', ''GXGXG''),
                        (''aabbc'', ''GXGXG''), (''abbac'', ''GXGXG'')]) \<and>
     ''aabbc'' \<in> set ws \<and>
     ws = slice_to 5 (sorted_list_of_set C2))"
proof
  let ?h = "[(''speed'', ''GXYXX'')]"
  let ?t = "(init_solver {''siren'', ''seaty'', ''serve'', ''speed''} None)\<lparr>feedback_history := ?h\<rparr>"
  have "\<not> isl (suggest_guess sorted_list_of_set ?t True)" by code_simp
  then obtain w s1 where g: "suggest_guess sorted_list_of_set ?t True = Inr (w, s1)"
    using Inr_projr by blast
  from suggest_guess_state[OF g] obtain C1 where f: "filter_words ?t = Inr (C1, s1)" ..
  have "card (fst (projr (filter_words ?t))) = 3" by code_simp
  with f have c: "card C1 = 3" by simp
  have five: "\<forall>(guess, feedback)\<in>set (feedback_history ?t). length guess = 5" by simp
  from conjunct1[OF spent_guess_only_as_sole_candidate_or_fallback[OF five]] g f c
  have "w \<notin> fst ` set (feedback_history ?t)" by simp
  then have n: "w \<notin> fst ` set ?h" by simp
  show "\<exists>w s1 C1. suggest_guess sorted_list_of_set ?t True = Inr (w, s1) \<and>
     filter_words ?t = Inr (C1, s1) \<and> card C1 = 3 \<and> w \<notin> fst ` set ?h"
    by (intro exI conjI) (rule g f c n)+
next
  let ?h = "[(''aaabc'', ''GXGXG''), (''bbbac'', ''GXGXG''),
             (''aabbc'', ''GXGXG''), (''abbac'', ''GXGXG'')]"
  let ?t = "(init_solver {''aabbc'', ''abbac''} None)\<lparr>feedback_history := ?h\<rparr>"
  let ?r = "suggest_guess_exp sorted_list_of_set ?t False 5"
  have "\<not> isl ?r" by code_simp
  then obtain ws s2 where g: "?r = Inr (ws, s2)"
    using Inr_projr by blast
  from suggest_guess_exp_state[OF g] obtain C2 where f: "filter_words_exp ?t = Inr (C2, s2)" ..
  have "fst (projr (filter_words_exp ?t)) = {''aabbc'', ''abbac''}" by code_simp
  with f have C: "C2 = {''aabbc'', ''abbac''}" by simp
  have "''aabbc'' \<in> set (fst (projr ?r))" by code_simp
  with g have m: "''aabbc'' \<in> set ws" by simp
  have hh: "feedback_history ?t = ?h" by simp
  have five: "\<forall>(guess, feedback)\<in>set (feedback_history ?t). length guess = 5" by simp
  have e: "C2 - fst ` set ?h = {}" unfolding C by auto
  have l: "lists_set sorted_list_of_set (C2 - fst ` set ?h)"
    unfolding e by (simp add: lists_set_def)
  then have l': "lists_set sorted_list_of_set
      ((if False then all_words ?t else C2) - fst ` set (feedback_history ?t))" by simp
  have c: "card C2 \<noteq> 1" unfolding C by simp
  have ng: "\<not> (\<forall>x\<in>set ws. x \<notin> fst ` set (feedback_history ?t))" using m by auto
  note th = spent_guess_only_as_sole_candidate_or_fallback[where iter = sorted_list_of_set
      and s = "?t" and elimination_mode = False and num_suggestions = 5 and ws = ws
      and s_exp = s2 and C_exp = C2, OF five]
  have "(card C2 = 1 \<and> lists_set sorted_list_of_set C2 \<longrightarrow> (\<exists>x. C2 = {x} \<and> ws = [x])) \<and>
        (card C2 \<noteq> 1 \<longrightarrow>
           (\<forall>x\<in>set ws. x \<notin> fst ` set (feedback_history ?t)) \<or>
           (ws = slice_to 5 (sorted_list_of_set C2) \<and>
            ((5::int) \<le> 0 \<or>
             (\<exists>pf. calculate_positional_frequencies sorted_list_of_set C2 = Inr pf \<and>
                (\<forall>x\<in>(if False then all_words ?t else C2) - fst ` set (feedback_history ?t).
                   score_word_exp s2 x pf (calculate_letter_frequencies sorted_list_of_set C2) C2
                     False = Inr None)))))"
    by (rule mp[OF conjunct2[OF th] conjI[OF g conjI[OF f l']]])
  with c ng have fb: "ws = slice_to 5 (sorted_list_of_set C2)" by blast
  show "\<exists>ws s2 C2. ?r = Inr (ws, s2) \<and> filter_words_exp ?t = Inr (C2, s2) \<and>
     C2 = {''aabbc'', ''abbac''} \<and> lists_set sorted_list_of_set (C2 - fst ` set ?h) \<and>
     ''aabbc'' \<in> set ws \<and> ws = slice_to 5 (sorted_list_of_set C2)"
    by (intro exI conjI) (rule g f C l m fb)+
qed

text \<open>
  The claim as written fails in both versions when one candidate is left and it is a word
  of the history (after the winning guess; in V3 also when a guess with a repeated letter
  stays consistent with its own feedback), and in the latest version when all candidates
  are words of the history.
\<close>

theorem spent_guess_counterexample:
  "map_sum id fst (suggest_guess sorted_list_of_set
       ((init_solver {''apple''} None)\<lparr>feedback_history := [(''apple'', ''GGGGG'')]\<rparr>) False)
     = Inr ''apple'' \<and>
   map_sum id fst (suggest_guess_exp sorted_list_of_set
       ((init_solver {''apple''} None)\<lparr>feedback_history := [(''apple'', ''GGGGG'')]\<rparr>) False 5)
     = Inr [''apple''] \<and>
   map_sum id fst (filter_words
       ((init_solver {''aabcd''} None)\<lparr>feedback_history := [(''aabcd'', ''GXGGG'')]\<rparr>))
     = Inr {''aabcd''} \<and>
   map_sum id fst (suggest_guess sorted_list_of_set
       ((init_solver {''aabcd''} None)\<lparr>feedback_history := [(''aabcd'', ''GXGGG'')]\<rparr>) True)
     = Inr ''aabcd'' \<and>
   map_sum id fst (filter_words_exp
       ((init_solver {''aabbc'', ''abbac''} None)
          \<lparr>feedback_history := [(''aaabc'', ''GXGXG''), (''bbbac'', ''GXGXG''),
                                 (''aabbc'', ''GXGXG''), (''abbac'', ''GXGXG'')]\<rparr>))
     = Inr {''aabbc'', ''abbac''} \<and>
   map_sum id fst (suggest_guess_exp sorted_list_of_set
       ((init_solver {''aabbc'', ''abbac''} None)
          \<lparr>feedback_history := [(''aaabc'', ''GXGXG''), (''bbbac'', ''GXGXG''),
                                 (''aabbc'', ''GXGXG''), (''abbac'', ''GXGXG'')]\<rparr>) False 5)
     = Inr [''aabbc'', ''abbac'']"
  by code_simp

end
